theory Spec2Isabelle
  imports Complex_Main
begin

section \<open>The lattice provider, the potential and the random source\<close>

text \<open>
  \<^verbatim>\<open>montecarlo.py\<close> reads three things of the surface object: \<^verbatim>\<open>stlen\<close> (the
  number of sites), \<^verbatim>\<open>sti\<close> (the array of site indices, which the engine indexes by a
  boolean mask) and \<^verbatim>\<open>nni\<close> (the neighbour table, one row per site). The module that
  builds them (\<^verbatim>\<open>hexsurface\<close>) is not part of the sources, so the three are fields
  of a record, and \<open>wf_surface\<close> is the provider's contract: \<^verbatim>\<open>sti\<close> is the identity
  index array, every row has at least 24 entries and every entry is a site index. Outside
  that contract the Python raises \<^verbatim>\<open>IndexError\<close>; every theorem below assumes it.
\<close>

record surface =
  stlen :: nat
  sti :: "nat list"
  nni :: "nat list list"

definition wf_surface :: "surface \<Rightarrow> bool" where
  "wf_surface surf \<longleftrightarrow>
     sti surf = [0..<stlen surf] \<and> length (nni surf) = stlen surf \<and>
     (\<forall>row \<in> set (nni surf). 24 \<le> length row \<and> (\<forall>k \<in> set row. k < stlen surf))"

text \<open>
  The potential \<^verbatim>\<open>V(i, occ[nni], surface, **params)\<close> is a parameter of the engine: a
  function of the site and of the occupancy of its whole neighbour row. Energies are
  float64 in the source and \<open>real\<close> here. \<^verbatim>\<open>np.exp\<close> is a parameter as well (\<open>expf\<close>):
  on float64 it is not the real exponential, it underflows to \<open>0.0\<close>.
\<close>

type_synonym potential = "nat \<Rightarrow> bool list \<Rightarrow> real"

text \<open>
  What the source prints, and what it raises. \<open>TryToAdd n\<close> is the line
  \<^verbatim>\<open>!!! n try to add !!!\<close> (the spec's ExhaustedAttempts signal), \<open>AddOccupied\<close> is
  \<^verbatim>\<open>!!! Trying to add in an already occupied position !!!\<close> and \<open>MoveOccupied\<close> is
  \<^verbatim>\<open>!!!!Moving to an occupied position!!!!\<close>.
\<close>

datatype message = TryToAdd nat | AddOccupied | MoveOccupied

datatype error =
    EmptyPopulation       \<comment> \<open>ValueError of np.random.choice on an empty array\<close>
  | NormalizationFailure  \<comment> \<open>0/0 in the normalisation; np.random.choice then raises on NaN\<close>
  | NegativeProbability   \<comment> \<open>ValueError of np.random.choice on a negative probability\<close>
  | UnboundCandidate      \<comment> \<open>UnboundLocalError: the loop variable was never assigned\<close>
  | ZeroDivision          \<comment> \<open>ZeroDivisionError of Python's division\<close>

text \<open>
  The fields of \<^verbatim>\<open>MonteCarloSimulation\<close> that the engine writes. The global random
  source of numpy is the stream \<open>rnd\<close> of raw draws and the number \<open>drawn\<close> of draws
  consumed so far. An exception leaves the object as it was when it was raised, so an
  error carries the state at that point.
\<close>

record sim =
  occ :: "bool list"
  previous_occ :: "bool list"
  energies :: "real list"
  previous_energies :: "real list"
  energy :: real
  previous_energy :: real
  temperature :: real
  total_steps :: nat
  attempted_moves :: nat
  successful_moves :: nat
  not_moved_moves :: nat
  blocked_moves :: nat
  move_accepted :: nat
  add_prepopulated :: nat
  printed :: "message list"
  rnd :: "nat \<Rightarrow> nat"
  drawn :: nat

type_synonym 'a outcome = "(error \<times> sim) + 'a"

definition state_ok :: "surface \<Rightarrow> sim \<Rightarrow> bool" where
  "state_ok surf s \<longleftrightarrow>
     length (occ s) = stlen surf \<and> length (previous_occ s) = stlen surf \<and>
     length (energies s) = stlen surf \<and> length (previous_energies s) = stlen surf"

definition say :: "message \<Rightarrow> sim \<Rightarrow> sim" where
  "say m s = s\<lparr>printed := printed s @ [m]\<rparr>"

text \<open>\<^verbatim>\<open>a[mask]\<close>: the entries of \<open>a\<close> where the boolean mask is true, in order.\<close>

definition masked :: "'a list \<Rightarrow> bool list \<Rightarrow> 'a list" where
  "masked a sel = map fst (filter snd (zip a sel))"

text \<open>\<^verbatim>\<open>occ[idx]\<close>: the occupancy at each index of \<open>idx\<close>.\<close>

definition gather :: "bool list \<Rightarrow> nat list \<Rightarrow> bool list" where
  "gather oc idx = map (\<lambda>k. oc ! k) idx"

text \<open>
  \<^verbatim>\<open>np.random.choice(a)\<close>: raises on an empty array, otherwise every entry can come
  out; the raw draw picks the position.
\<close>

definition choice :: "nat list \<Rightarrow> sim \<Rightarrow> (nat \<times> sim) outcome" where
  "choice a s =
     (if a = [] then Inl (EmptyPopulation, s)
      else Inr (a ! (rnd s (drawn s) mod length a), s\<lparr>drawn := drawn s + 1\<rparr>))"

text \<open>
  \<^verbatim>\<open>np.random.choice(a, p=p)\<close>: inverts the cumulative sum of \<open>p\<close> at a uniform draw
  of \<open>[0, 1)\<close>, so exactly the positions of positive probability can come out.
\<close>

definition choice_p :: "nat list \<Rightarrow> real list \<Rightarrow> sim \<Rightarrow> (nat \<times> sim) outcome" where
  "choice_p a p s =
     (let supp = filter (\<lambda>k. 0 < p ! k) [0..<length a] in
      if \<exists>x \<in> set p. x < 0 then Inl (NegativeProbability, s)
      else if supp = [] then Inl (NormalizationFailure, s)
      else Inr (a ! (supp ! (rnd s (drawn s) mod length supp)), s\<lparr>drawn := drawn s + 1\<rparr>))"

section \<open>Properties and energy bookkeeping\<close>

definition atoms_on_surface :: "sim \<Rightarrow> nat" where
  "atoms_on_surface s = length (filter (\<lambda>b. b) (occ s))"

definition coverage :: "sim \<Rightarrow> real" where
  "coverage s = real (atoms_on_surface s) / real (length (occ s))"

text \<open>
  \<^verbatim>\<open>boltzmann_T\<close> divides by the temperature: Python's division raises on a zero
  temperature, and \<open>move_atom\<close> below returns that error where it reads the property.
  \<^verbatim>\<open>coverage\<close> divides by the number of sites; \<open>run_step\<close> returns the error of a
  lattice without sites. Both quotients are float64 in the source and real here.
\<close>

definition boltzmann_T :: "sim \<Rightarrow> real" where
  "boltzmann_T s = 11604.5221105 / temperature s"

definition get_energy :: "surface \<Rightarrow> potential \<Rightarrow> sim \<Rightarrow> nat \<Rightarrow> real" where
  "get_energy surf V s i = V i (gather (occ s) (nni surf ! i))"

definition update_energy :: "surface \<Rightarrow> potential \<Rightarrow> nat list \<Rightarrow> sim \<Rightarrow> sim" where
  "update_energy surf V idx s =
     (let es0 = foldl (\<lambda>es k. es[k := 0]) (energies s) (filter (\<lambda>k. \<not> occ s ! k) idx);
          es1 = foldl (\<lambda>es k. es[k := get_energy surf V s k]) es0 (filter (\<lambda>k. occ s ! k) idx)
      in s\<lparr>energies := es1, energy := sum_list es1\<rparr>)"

definition keep_modification :: "nat list \<Rightarrow> sim \<Rightarrow> sim" where
  "keep_modification idx s =
     s\<lparr>previous_energies := foldl (\<lambda>pe k. pe[k := energies s ! k]) (previous_energies s) idx,
       previous_energy := energy s,
       previous_occ := foldl (\<lambda>po k. po[k := occ s ! k]) (previous_occ s) idx\<rparr>"

section \<open>Deposition\<close>

text \<open>
  The sampling loop of \<^verbatim>\<open>add_atom\<close>: \<open>n\<close> attempts are left, \<open>cur\<close> is the loop
  variable \<^verbatim>\<open>i\<close> (\<open>None\<close> before the first attempt). It returns \<^verbatim>\<open>i\<close> and
  \<^verbatim>\<open>add_success\<close>.
\<close>

fun add_search :: "surface \<Rightarrow> nat list \<Rightarrow> nat \<Rightarrow> nat option \<Rightarrow> sim \<Rightarrow> ((nat option \<times> bool) \<times> sim) outcome" where
  "add_search surf not_occ_i 0 cur s = Inr ((cur, False), s)"
| "add_search surf not_occ_i (Suc n) cur s =
     (case choice not_occ_i s of
        Inl e \<Rightarrow> Inl e
      | Inr (i, s') \<Rightarrow>
          if \<not> (\<exists>b \<in> set (gather (occ s') (take 9 (nni surf ! i))). b) then Inr ((Some i, True), s')
          else add_search surf not_occ_i n (Some i) s')"

definition add_atom :: "surface \<Rightarrow> potential \<Rightarrow> sim \<Rightarrow> sim outcome" where
  "add_atom surf V s =
     (let nbtry = stlen surf;
          not_occ_i = masked (sti surf) (map Not (occ s))
      in case add_search surf not_occ_i nbtry None s of
           Inl e \<Rightarrow> Inl e
         | Inr ((cur, add_success), s1) \<Rightarrow>
             (let s2 = (if \<not> add_success then say (TryToAdd nbtry) s1 else s1) in
              case cur of
                None \<Rightarrow> Inl (UnboundCandidate, s2)
              | Some i \<Rightarrow>
                  (let s3 = (if occ s2 ! i then say AddOccupied s2 else s2);
                       s4 = s3\<lparr>occ := (occ s3)[i := True]\<rparr>;
                       s5 = update_energy surf V (nni surf ! i) s4
                   in Inr (update_energy surf V [i] s5))))"

section \<open>Diffusion\<close>

text \<open>The blocked-move test of \<^verbatim>\<open>move_atom\<close> (the comment there: "is surrounded").\<close>

definition is_surrounded :: "surface \<Rightarrow> sim \<Rightarrow> nat \<Rightarrow> bool" where
  "is_surrounded surf s i \<longleftrightarrow>
     (\<forall>b \<in> set (gather (occ s) (drop 18 (take 24 (nni surf ! i)))). b) \<and>
     \<not> (\<exists>b \<in> set (gather (occ s) (take 18 (nni surf ! i))). b) \<and>
     occ s ! i"

text \<open>\<^verbatim>\<open>self._nni\<close>: the site itself and its first three neighbours.\<close>

definition hop_candidates :: "surface \<Rightarrow> nat \<Rightarrow> nat list" where
  "hop_candidates surf i = i # take 3 (nni surf ! i)"

text \<open>
  \<^verbatim>\<open>self._p\<close> before the normalisation: the Boltzmann weight of each candidate's hop
  energy, set to zero where the candidate is occupied.
\<close>

definition hop_weights :: "surface \<Rightarrow> potential \<Rightarrow> (real \<Rightarrow> real) \<Rightarrow> sim \<Rightarrow> nat list \<Rightarrow> real list" where
  "hop_weights surf V expf s cands =
     (let nne = map (\<lambda>ii. if occ s ! ii then 0 else get_energy surf V s ii) cands;
          occs = gather (occ s) cands;
          p = map (\<lambda>e. expf (- e * boltzmann_T s)) nne
      in map (\<lambda>(b, w). if b then 0 else w) (zip occs p))"

definition normalized :: "real list \<Rightarrow> real list" where
  "normalized p = map (\<lambda>w. w / sum_list p) p"

text \<open>The tail of \<^verbatim>\<open>move_atom\<close>, once the destination \<open>j\<close> is drawn.\<close>

definition finish_move :: "surface \<Rightarrow> potential \<Rightarrow> nat \<Rightarrow> nat \<Rightarrow> sim \<Rightarrow> sim" where
  "finish_move surf V i j s =
     (let s1 = (if j \<noteq> i then s\<lparr>successful_moves := successful_moves s + 1\<rparr>
                else s\<lparr>not_moved_moves := not_moved_moves s + 1\<rparr>);
          s2 = (if occ s1 ! j then say MoveOccupied s1 else s1);
          s3 = s2\<lparr>occ := (occ s2)[j := True]\<rparr>;
          s4 = update_energy surf V (hop_candidates surf i) s3;
          s5 = update_energy surf V [i, j] s4;
          s6 = keep_modification (hop_candidates surf i) s5;
          s7 = keep_modification [i, j] s6
      in s7\<lparr>move_accepted := move_accepted s7 + 1\<rparr>)"

definition move_atom :: "surface \<Rightarrow> potential \<Rightarrow> (real \<Rightarrow> real) \<Rightarrow> sim \<Rightarrow> sim outcome" where
  "move_atom surf V expf s =
     (let s0 = s\<lparr>attempted_moves := attempted_moves s + 1\<rparr> in
      case choice (masked (sti surf) (occ s0)) s0 of
        Inl e \<Rightarrow> Inl e
      | Inr (i, s1) \<Rightarrow>
          if is_surrounded surf s1 i then Inr (s1\<lparr>blocked_moves := blocked_moves s1 + 1\<rparr>)
          else
            (let s2 = s1\<lparr>occ := (occ s1)[i := False]\<rparr>;
                 p = hop_weights surf V expf s2 (hop_candidates surf i)
             in if temperature s2 = 0 then Inl (ZeroDivision, s2)
                else if sum_list p = 0 then Inl (NormalizationFailure, s2)
                else
                  (case choice_p (hop_candidates surf i) (normalized p) s2 of
                     Inl e \<Rightarrow> Inl e
                   | Inr (j, s3) \<Rightarrow> Inr (finish_move surf V i j s3))))"

section \<open>The lap driver and the initial state\<close>

text \<open>\<^verbatim>\<open>for i in range(n): self.move_atom()\<close>\<close>

fun move_loop :: "surface \<Rightarrow> potential \<Rightarrow> (real \<Rightarrow> real) \<Rightarrow> nat \<Rightarrow> sim \<Rightarrow> sim outcome" where
  "move_loop surf V expf 0 s = Inr s"
| "move_loop surf V expf (Suc n) s =
     (case move_atom surf V expf s of
        Inl e \<Rightarrow> Inl e
      | Inr s' \<Rightarrow> move_loop surf V expf n s')"

text \<open>
  One iteration of the loop of \<^verbatim>\<open>run_lap\<close>. \<^verbatim>\<open>coverage\<close> divides by \<^verbatim>\<open>len(self.occ)\<close>,
  which raises on a lattice without sites.
\<close>

definition run_step :: "surface \<Rightarrow> potential \<Rightarrow> (real \<Rightarrow> real) \<Rightarrow> nat \<Rightarrow> real \<Rightarrow> sim \<Rightarrow> sim outcome" where
  "run_step surf V expf moves_per_step target_coverage s =
     (if length (occ s) = 0 then Inl (ZeroDivision, s)
      else
        (case (if coverage s < target_coverage then add_atom surf V s else Inr s) of
           Inl e \<Rightarrow> Inl e
         | Inr s1 \<Rightarrow>
             (case move_loop surf V expf (moves_per_step * atoms_on_surface s1) s1 of
                Inl e \<Rightarrow> Inl e
              | Inr s2 \<Rightarrow> Inr (s2\<lparr>total_steps := total_steps s2 + 1\<rparr>))))"

fun run_steps :: "surface \<Rightarrow> potential \<Rightarrow> (real \<Rightarrow> real) \<Rightarrow> nat \<Rightarrow> real \<Rightarrow> nat \<Rightarrow> sim \<Rightarrow> sim outcome" where
  "run_steps surf V expf moves_per_step target_coverage 0 s = Inr s"
| "run_steps surf V expf moves_per_step target_coverage (Suc n) s =
     (case run_step surf V expf moves_per_step target_coverage s of
        Inl e \<Rightarrow> Inl e
      | Inr s' \<Rightarrow> run_steps surf V expf moves_per_step target_coverage n s')"

definition run_lap :: "surface \<Rightarrow> potential \<Rightarrow> (real \<Rightarrow> real) \<Rightarrow> nat \<Rightarrow> nat \<Rightarrow> real \<Rightarrow> sim \<Rightarrow> sim outcome" where
  "run_lap surf V expf steps_per_lap moves_per_step target_coverage s =
     run_steps surf V expf moves_per_step target_coverage steps_per_lap s"

text \<open>The state that \<^verbatim>\<open>__init__\<close> builds, for a first temperature and a random source.\<close>

definition init_sim :: "surface \<Rightarrow> real \<Rightarrow> (nat \<Rightarrow> nat) \<Rightarrow> sim" where
  "init_sim surf t0 r =
     \<lparr>occ = replicate (stlen surf) False, previous_occ = replicate (stlen surf) False,
      energies = replicate (stlen surf) 0, previous_energies = replicate (stlen surf) 0,
      energy = 0, previous_energy = 0, temperature = t0,
      total_steps = 0, attempted_moves = 0, successful_moves = 0, not_moved_moves = 0,
      blocked_moves = 0, move_accepted = 0, add_prepopulated = 0,
      printed = [], rnd = r, drawn = 0\<rparr>"

text \<open>
  \<^verbatim>\<open>prepopulate\<close>, for the sample \<open>c\<close> that \<^verbatim>\<open>np.random.choice(all, size, replace=False)\<close>
  returned: the sites of \<open>c\<close> are occupied, every energy is recomputed and kept.
\<close>

definition prepopulate :: "surface \<Rightarrow> potential \<Rightarrow> nat list \<Rightarrow> sim \<Rightarrow> sim" where
  "prepopulate surf V c s =
     (let s1 = s\<lparr>add_prepopulated := length c\<rparr>;
          s2 = s1\<lparr>occ := foldl (\<lambda>oc k. oc[k := True]) (occ s1) c\<rparr>;
          s3 = update_energy surf V [0..<stlen surf] s2
      in keep_modification [0..<stlen surf] s3)"

section \<open>Outcomes of a diffusion step\<close>

text \<open>What no operation of the engine changes: the sizes of the arrays, the temperature.\<close>

definition same_shape :: "sim \<Rightarrow> sim \<Rightarrow> bool" where
  "same_shape s s' \<longleftrightarrow>
     length (occ s') = length (occ s) \<and> length (previous_occ s') = length (previous_occ s) \<and>
     length (energies s') = length (energies s) \<and>
     length (previous_energies s') = length (previous_energies s) \<and>
     temperature s' = temperature s \<and> total_steps s' = total_steps s"

text \<open>The two ways a call of \<open>move_atom\<close> completes.\<close>

definition blocked_result :: "sim \<Rightarrow> sim \<Rightarrow> bool" where
  "blocked_result s s' \<longleftrightarrow>
     occ s' = occ s \<and> printed s' = printed s \<and>
     attempted_moves s' = attempted_moves s + 1 \<and> blocked_moves s' = blocked_moves s + 1 \<and>
     successful_moves s' = successful_moves s \<and> not_moved_moves s' = not_moved_moves s \<and>
     same_shape s s'"

definition hop_result :: "nat \<Rightarrow> nat \<Rightarrow> sim \<Rightarrow> sim \<Rightarrow> bool" where
  "hop_result i j s s' \<longleftrightarrow>
     occ s' = (occ s)[i := False, j := True] \<and> printed s' = printed s \<and>
     attempted_moves s' = attempted_moves s + 1 \<and> blocked_moves s' = blocked_moves s \<and>
     successful_moves s' = (if j \<noteq> i then successful_moves s + 1 else successful_moves s) \<and>
     not_moved_moves s' = (if j \<noteq> i then not_moved_moves s else not_moved_moves s + 1) \<and>
     same_shape s s'"

text \<open>
  The destination drawn when the exponential is positive: a candidate that is free, by
  position among the free candidates.
\<close>

definition free_positions :: "surface \<Rightarrow> sim \<Rightarrow> nat \<Rightarrow> nat list" where
  "free_positions surf s i =
     filter (\<lambda>k. \<not> occ s ! (hop_candidates surf i ! k)) [0..<length (hop_candidates surf i)]"

section \<open>The invariant of the energy bookkeeping\<close>

text \<open>
  The two parts of the energy invariant that every operation keeps: a free site has the
  stored energy zero, and the total is the sum of the stored energies.
\<close>

definition zero_where_free :: "sim \<Rightarrow> bool" where
  "zero_where_free s \<longleftrightarrow> (\<forall>i < length (occ s). \<not> occ s ! i \<longrightarrow> energies s ! i = 0)"

definition energy_consistent :: "sim \<Rightarrow> bool" where
  "energy_consistent s \<longleftrightarrow>
     length (energies s) = length (occ s) \<and> energy s = sum_list (energies s) \<and> zero_where_free s"

section \<open>Concrete lattices and states\<close>

text \<open>
  A periodic lattice of eight sites with three nearest neighbours each (the graph of the
  cube: site \<open>v\<close> is next to \<open>v XOR 1\<close>, \<open>v XOR 2\<close> and \<open>v XOR 4\<close>). A row of
  the table lists the three nearest neighbours and the three sites at distance two, four
  times over, so it has the 24 entries of the provider's contract.
\<close>

definition cube :: surface where
  "cube = \<lparr>stlen = 8, sti = [0, 1, 2, 3, 4, 5, 6, 7],
     nni = [[1, 2, 4, 3, 5, 6, 1, 2, 4, 3, 5, 6, 1, 2, 4, 3, 5, 6, 1, 2, 4, 3, 5, 6],
            [0, 3, 5, 2, 4, 7, 0, 3, 5, 2, 4, 7, 0, 3, 5, 2, 4, 7, 0, 3, 5, 2, 4, 7],
            [3, 0, 6, 1, 7, 4, 3, 0, 6, 1, 7, 4, 3, 0, 6, 1, 7, 4, 3, 0, 6, 1, 7, 4],
            [2, 1, 7, 0, 6, 5, 2, 1, 7, 0, 6, 5, 2, 1, 7, 0, 6, 5, 2, 1, 7, 0, 6, 5],
            [5, 6, 0, 7, 1, 2, 5, 6, 0, 7, 1, 2, 5, 6, 0, 7, 1, 2, 5, 6, 0, 7, 1, 2],
            [4, 7, 1, 6, 0, 3, 4, 7, 1, 6, 0, 3, 4, 7, 1, 6, 0, 3, 4, 7, 1, 6, 0, 3],
            [7, 4, 2, 5, 3, 0, 7, 4, 2, 5, 3, 0, 7, 4, 2, 5, 3, 0, 7, 4, 2, 5, 3, 0],
            [6, 5, 3, 4, 2, 1, 6, 5, 3, 4, 2, 1, 6, 5, 3, 4, 2, 1, 6, 5, 3, 4, 2, 1]]\<rparr>"

text \<open>The smallest periodic lattice: one site, which is its own neighbour in every shell.\<close>

definition one_site :: surface where
  "one_site = \<lparr>stlen = 1, sti = [0],
     nni = [[0, 0, 0, 0, 0, 0, 0, 0, 0, 0, 0, 0, 0, 0, 0, 0, 0, 0, 0, 0, 0, 0, 0, 0]]\<rparr>"

text \<open>
  Two potentials: a bond of \<open>-1\<close> for each occupied nearest neighbour, and a repulsion
  of \<open>0.1\<close> for each.
\<close>

definition bonds :: potential where
  "bonds i occs = - real (length (filter (\<lambda>b. b) (take 3 occs)))"

definition repel :: potential where
  "repel i occs = real (length (filter (\<lambda>b. b) (take 3 occs))) / 10"

text \<open>
  \<^verbatim>\<open>np.exp\<close> on float64 where it underflows: the result is \<open>0.0\<close> for every argument
  below \<open>-745.14\<close>. Above \<open>-746\<close> this function is the real exponential.
\<close>

definition np_exp :: "real \<Rightarrow> real" where
  "np_exp x = (if x < - 746 then 0 else exp x)"

text \<open>
  States of the cube at 300 K: without atoms (as \<open>init_sim\<close> builds it), with atoms at
  the sites 0 and 3 (as \<open>prepopulate\<close> leaves it for the sample \<open>[0, 3]\<close>), and with
  every site occupied. \<open>cold\<close> has atoms at 0, 1 and 6 at 1 K under \<open>repel\<close>; \<open>lone\<close>
  is the one-site lattice, occupied.
\<close>

definition bare :: sim where
  "bare =
     \<lparr>occ = [False, False, False, False, False, False, False, False],
      previous_occ = [False, False, False, False, False, False, False, False],
      energies = [0, 0, 0, 0, 0, 0, 0, 0], previous_energies = [0, 0, 0, 0, 0, 0, 0, 0],
      energy = 0, previous_energy = 0, temperature = 300,
      total_steps = 0, attempted_moves = 0, successful_moves = 0, not_moved_moves = 0,
      blocked_moves = 0, move_accepted = 0, add_prepopulated = 0,
      printed = [], rnd = (\<lambda>n. n), drawn = 0\<rparr>"

definition two_atoms :: sim where
  "two_atoms =
     \<lparr>occ = [True, False, False, True, False, False, False, False],
      previous_occ = [True, False, False, True, False, False, False, False],
      energies = [0, 0, 0, 0, 0, 0, 0, 0], previous_energies = [0, 0, 0, 0, 0, 0, 0, 0],
      energy = 0, previous_energy = 0, temperature = 300,
      total_steps = 0, attempted_moves = 0, successful_moves = 0, not_moved_moves = 0,
      blocked_moves = 0, move_accepted = 0, add_prepopulated = 2,
      printed = [], rnd = (\<lambda>n. n), drawn = 0\<rparr>"

definition packed :: sim where
  "packed =
     \<lparr>occ = [True, True, True, True, True, True, True, True],
      previous_occ = [True, True, True, True, True, True, True, True],
      energies = [- 3, - 3, - 3, - 3, - 3, - 3, - 3, - 3],
      previous_energies = [- 3, - 3, - 3, - 3, - 3, - 3, - 3, - 3],
      energy = - 24, previous_energy = - 24, temperature = 300,
      total_steps = 0, attempted_moves = 0, successful_moves = 0, not_moved_moves = 0,
      blocked_moves = 0, move_accepted = 0, add_prepopulated = 8,
      printed = [], rnd = (\<lambda>n. n), drawn = 0\<rparr>"

definition cold :: sim where
  "cold =
     \<lparr>occ = [True, True, False, False, False, False, True, False],
      previous_occ = [True, True, False, False, False, False, True, False],
      energies = [1 / 10, 1 / 10, 0, 0, 0, 0, 0, 0],
      previous_energies = [1 / 10, 1 / 10, 0, 0, 0, 0, 0, 0],
      energy = 2 / 10, previous_energy = 2 / 10, temperature = 1,
      total_steps = 0, attempted_moves = 0, successful_moves = 0, not_moved_moves = 0,
      blocked_moves = 0, move_accepted = 0, add_prepopulated = 3,
      printed = [], rnd = (\<lambda>n. n), drawn = 0\<rparr>"

definition lone :: sim where
  "lone =
     \<lparr>occ = [True], previous_occ = [True], energies = [- 3], previous_energies = [- 3],
      energy = - 3, previous_energy = - 3, temperature = 300,
      total_steps = 0, attempted_moves = 0, successful_moves = 0, not_moved_moves = 0,
      blocked_moves = 0, move_accepted = 0, add_prepopulated = 1,
      printed = [], rnd = (\<lambda>n. n), drawn = 0\<rparr>"

text \<open>
  \<open>moved\<close> is \<open>two_atoms\<close> after one diffusion step: the atom of site 0 went to
  site 1.
\<close>

definition moved :: sim where
  "moved =
     \<lparr>occ = [False, True, False, True, False, False, False, False],
      previous_occ = [False, True, False, True, False, False, False, False],
      energies = [0, - 1, 0, 0, 0, 0, 0, 0], previous_energies = [0, - 1, 0, 0, 0, 0, 0, 0],
      energy = - 1, previous_energy = - 1, temperature = 300,
      total_steps = 0, attempted_moves = 1, successful_moves = 1, not_moved_moves = 0,
      blocked_moves = 0, move_accepted = 1, add_prepopulated = 2,
      printed = [], rnd = (\<lambda>n. n), drawn = 2\<rparr>"

section \<open>Sampling\<close>

lemma choice_Inr:
  "choice a s = Inr (i, s') \<Longrightarrow> i \<in> set a \<and> s' = s\<lparr>drawn := drawn s + 1\<rparr>"
  by (auto simp: choice_def split: if_splits)

lemma masked_iff:
  "x \<in> set (masked a sel) \<longleftrightarrow> (\<exists>k. k < length a \<and> k < length sel \<and> a ! k = x \<and> sel ! k)"
  unfolding masked_def by (force simp: in_set_zip image_iff)

lemma masked_upt_iff:
  "length sel = n \<Longrightarrow> x \<in> set (masked [0..<n] sel) \<longleftrightarrow> x < n \<and> sel ! x"
  by (auto simp: masked_iff)

lemma length_foldl_update [simp]:
  "length (foldl (\<lambda>xs k. xs[k := f k]) ys idx) = length ys"
  by (induction idx arbitrary: ys) auto

lemma update_energy_fields [simp]:
  "occ (update_energy surf V idx s) = occ s"
  "previous_occ (update_energy surf V idx s) = previous_occ s"
  "previous_energies (update_energy surf V idx s) = previous_energies s"
  "previous_energy (update_energy surf V idx s) = previous_energy s"
  "temperature (update_energy surf V idx s) = temperature s"
  "total_steps (update_energy surf V idx s) = total_steps s"
  "attempted_moves (update_energy surf V idx s) = attempted_moves s"
  "successful_moves (update_energy surf V idx s) = successful_moves s"
  "not_moved_moves (update_energy surf V idx s) = not_moved_moves s"
  "blocked_moves (update_energy surf V idx s) = blocked_moves s"
  "move_accepted (update_energy surf V idx s) = move_accepted s"
  "add_prepopulated (update_energy surf V idx s) = add_prepopulated s"
  "printed (update_energy surf V idx s) = printed s"
  "rnd (update_energy surf V idx s) = rnd s"
  "drawn (update_energy surf V idx s) = drawn s"
  "length (energies (update_energy surf V idx s)) = length (energies s)"
  by (simp_all add: update_energy_def Let_def)

lemma keep_modification_fields [simp]:
  "occ (keep_modification idx s) = occ s"
  "energies (keep_modification idx s) = energies s"
  "energy (keep_modification idx s) = energy s"
  "temperature (keep_modification idx s) = temperature s"
  "total_steps (keep_modification idx s) = total_steps s"
  "attempted_moves (keep_modification idx s) = attempted_moves s"
  "successful_moves (keep_modification idx s) = successful_moves s"
  "not_moved_moves (keep_modification idx s) = not_moved_moves s"
  "blocked_moves (keep_modification idx s) = blocked_moves s"
  "move_accepted (keep_modification idx s) = move_accepted s"
  "add_prepopulated (keep_modification idx s) = add_prepopulated s"
  "printed (keep_modification idx s) = printed s"
  "rnd (keep_modification idx s) = rnd s"
  "drawn (keep_modification idx s) = drawn s"
  "length (previous_occ (keep_modification idx s)) = length (previous_occ s)"
  "length (previous_energies (keep_modification idx s)) = length (previous_energies s)"
  by (simp_all add: keep_modification_def)

lemma count_update_True:
  "i < length xs \<Longrightarrow> \<not> xs ! i \<Longrightarrow>
     length (filter (\<lambda>b. b) (xs[i := True])) = Suc (length (filter (\<lambda>b. b) xs))"
proof (induction xs arbitrary: i)
  case Nil
  then show ?case by simp
next
  case (Cons x xs)
  then show ?case by (cases i) auto
qed

lemma count_update_False:
  "i < length xs \<Longrightarrow> xs ! i \<Longrightarrow>
     Suc (length (filter (\<lambda>b. b) (xs[i := False]))) = length (filter (\<lambda>b. b) xs)"
proof (induction xs arbitrary: i)
  case Nil
  then show ?case by simp
next
  case (Cons x xs)
  then show ?case by (cases i) auto
qed

lemma add_search_Inr:
  "add_search surf cands n cur s = Inr ((cur', ok), s') \<Longrightarrow>
     (\<exists>d. s' = s\<lparr>drawn := d\<rparr>) \<and>
     (cur' = cur \<or> (\<exists>i \<in> set cands. cur' = Some i)) \<and>
     (0 < n \<longrightarrow> (\<exists>i \<in> set cands. cur' = Some i)) \<and>
     (ok \<longrightarrow> (\<exists>i \<in> set cands. cur' = Some i \<and> (\<forall>k \<in> set (take 9 (nni surf ! i)). \<not> occ s ! k)))"
proof (induction n arbitrary: cur s)
  case 0
  then show ?case by auto (metis sim.surjective sim.update_convs(17))
next
  case (Suc n)
  show ?case
  proof (cases "choice cands s")
    case (Inl e)
    with Suc.prems show ?thesis by simp
  next
    case (Inr p)
    obtain i s1 where p: "p = (i, s1)" by (cases p)
    from Inr p have i: "i \<in> set cands" and s1: "s1 = s\<lparr>drawn := drawn s + 1\<rparr>"
      using choice_Inr by blast+
    show ?thesis
    proof (cases "\<exists>b \<in> set (gather (occ s1) (take 9 (nni surf ! i))). b")
      case True
      with Suc.prems Inr p have "add_search surf cands n (Some i) s1 = Inr ((cur', ok), s')"
        by (auto split: if_splits)
      from Suc.IH [OF this] i s1 show ?thesis by auto
    next
      case False
      with Suc.prems Inr p have "cur' = Some i" "ok" "s' = s1" by (auto split: if_splits)
      with False i s1 show ?thesis by (auto simp: gather_def)
    qed
  qed
qed

lemma add_search_no_error:
  "cands \<noteq> [] \<Longrightarrow> add_search surf cands n cur s \<noteq> Inl e"
  by (induction n arbitrary: cur s) (auto simp: choice_def)

section \<open>Deposition: what a call does\<close>

lemma add_atom_Inr:
  assumes wf: "wf_surface surf" and ok: "state_ok surf s"
    and run: "add_atom surf V s = Inr s'"
  shows "\<exists>i. i < stlen surf \<and> \<not> occ s ! i \<and> occ s' = (occ s)[i := True] \<and>
           (printed s' = printed s \<or> printed s' = printed s @ [TryToAdd (stlen surf)]) \<and>
           (printed s' = printed s \<longrightarrow> (\<forall>k \<in> set (take 9 (nni surf ! i)). \<not> occ s ! k))"
proof -
  let ?cands = "masked (sti surf) (map Not (occ s))"
  from run obtain cur b s1 where
    srch: "add_search surf ?cands (stlen surf) None s = Inr ((cur, b), s1)"
    by (auto simp: add_atom_def Let_def split: sum.splits)
  from add_search_Inr [OF srch] obtain d where s1: "s1 = s\<lparr>drawn := d\<rparr>"
    and cur: "cur = None \<or> (\<exists>i \<in> set ?cands. cur = Some i)"
    and good: "b \<longrightarrow> (\<exists>i \<in> set ?cands. cur = Some i \<and> (\<forall>k \<in> set (take 9 (nni surf ! i)). \<not> occ s ! k))"
    by blast
  from run srch obtain i where i: "cur = Some i"
    by (cases cur) (auto simp: add_atom_def Let_def)
  with cur have "i \<in> set ?cands" by auto
  with wf ok have ilt: "i < stlen surf" and free: "\<not> occ s ! i"
    by (auto simp: wf_surface_def state_ok_def masked_upt_iff)
  from run srch i s1 free have
    occ': "occ s' = (occ s)[i := True]" and
    pr: "printed s' = (if b then printed s else printed s @ [TryToAdd (stlen surf)])"
    by (auto simp: add_atom_def Let_def say_def)
  from pr good i have "printed s' = printed s \<longrightarrow> (\<forall>k \<in> set (take 9 (nni surf ! i)). \<not> occ s ! k)"
    by (auto split: if_splits)
  with ilt free occ' pr show ?thesis by (intro exI [of _ i]) (auto split: if_splits)
qed

lemma add_atom_fields:
  assumes run: "add_atom surf V s = Inr s'"
  shows "attempted_moves s' = attempted_moves s" "successful_moves s' = successful_moves s"
    "not_moved_moves s' = not_moved_moves s" "blocked_moves s' = blocked_moves s"
    "total_steps s' = total_steps s" "temperature s' = temperature s"
    "length (occ s') = length (occ s)" "length (energies s') = length (energies s)"
    "previous_occ s' = previous_occ s" "previous_energies s' = previous_energies s"
proof -
  let ?cands = "masked (sti surf) (map Not (occ s))"
  from run obtain cur b s1 where
    srch: "add_search surf ?cands (stlen surf) None s = Inr ((cur, b), s1)"
    by (auto simp: add_atom_def Let_def split: sum.splits)
  from add_search_Inr [OF srch] obtain d where s1: "s1 = s\<lparr>drawn := d\<rparr>" by blast
  from run srch obtain i where i: "cur = Some i"
    by (cases cur) (auto simp: add_atom_def Let_def)
  from run srch i s1 show "attempted_moves s' = attempted_moves s" "successful_moves s' = successful_moves s"
    "not_moved_moves s' = not_moved_moves s" "blocked_moves s' = blocked_moves s"
    "total_steps s' = total_steps s" "temperature s' = temperature s"
    "length (occ s') = length (occ s)" "length (energies s') = length (energies s)"
    "previous_occ s' = previous_occ s" "previous_energies s' = previous_energies s"
    by (auto simp: add_atom_def Let_def say_def)
qed

lemma add_atom_returns:
  assumes wf: "wf_surface surf" and ok: "state_ok surf s"
    and free: "i < stlen surf" "\<not> occ s ! i"
  shows "\<exists>s'. add_atom surf V s = Inr s'"
proof -
  let ?cands = "masked (sti surf) (map Not (occ s))"
  from wf ok free have "i \<in> set ?cands"
    by (auto simp: wf_surface_def state_ok_def masked_upt_iff)
  then have ne: "?cands \<noteq> []" by auto
  from free have pos: "0 < stlen surf" by simp
  obtain r where srch: "add_search surf ?cands (stlen surf) None s = Inr r"
    using add_search_no_error [OF ne] by (cases "add_search surf ?cands (stlen surf) None s") auto
  obtain cur b s1 where r: "r = ((cur, b), s1)" by (cases r) auto
  from add_search_Inr [OF srch [unfolded r]] pos obtain j where "cur = Some j" by blast
  with srch r show ?thesis by (simp add: add_atom_def Let_def)
qed

lemma add_atom_full:
  assumes wf: "wf_surface surf" and ok: "state_ok surf s"
    and pos: "0 < stlen surf" and full: "\<forall>i < stlen surf. occ s ! i"
  shows "add_atom surf V s = Inl (EmptyPopulation, s)"
proof -
  let ?cands = "masked (sti surf) (map Not (occ s))"
  from wf ok full have "x \<notin> set ?cands" for x
    by (simp add: wf_surface_def state_ok_def masked_upt_iff)
  then have e: "?cands = []" by (cases ?cands) auto
  from pos obtain n where n: "stlen surf = Suc n" by (cases "stlen surf") auto
  show ?thesis by (simp add: add_atom_def Let_def e n choice_def)
qed

lemma add_atom_search:
  assumes wf: "wf_surface surf" and ok: "state_ok surf s"
    and run: "add_atom surf V s = Inr s'"
  shows "\<exists>i b t. add_search surf (masked (sti surf) (map Not (occ s))) (stlen surf) None s = Inr ((Some i, b), t) \<and>
           occ t = occ s \<and> i < stlen surf \<and> \<not> occ s ! i \<and> occ s' = (occ s)[i := True]"
proof -
  let ?cands = "masked (sti surf) (map Not (occ s))"
  from run obtain cur b s1 where
    srch: "add_search surf ?cands (stlen surf) None s = Inr ((cur, b), s1)"
    by (auto simp: add_atom_def Let_def split: sum.splits)
  from add_search_Inr [OF srch] obtain d where s1: "s1 = s\<lparr>drawn := d\<rparr>"
    and cur: "cur = None \<or> (\<exists>i \<in> set ?cands. cur = Some i)"
    by blast
  from run srch obtain i where i: "cur = Some i"
    by (cases cur) (auto simp: add_atom_def Let_def)
  with cur have "i \<in> set ?cands" by auto
  with wf ok have ilt: "i < stlen surf" and free: "\<not> occ s ! i"
    by (auto simp: wf_surface_def state_ok_def masked_upt_iff)
  from run srch i s1 free have occ': "occ s' = (occ s)[i := True]"
    by (auto simp: add_atom_def Let_def say_def)
  from srch i s1 ilt free occ' show ?thesis by auto
qed

section \<open>Diffusion: what a call does\<close>

lemma hop_weights_length [simp]: "length (hop_weights surf V expf s cands) = length cands"
  by (simp add: hop_weights_def Let_def gather_def)

lemma hop_weights_nth:
  "k < length cands \<Longrightarrow>
     hop_weights surf V expf s cands ! k =
       (if occ s ! (cands ! k) then 0
        else expf (- get_energy surf V s (cands ! k) * boltzmann_T s))"
  by (simp add: hop_weights_def Let_def gather_def)

lemma normalized_length [simp]: "length (normalized p) = length p"
  by (simp add: normalized_def)

lemma normalized_nth: "k < length p \<Longrightarrow> normalized p ! k = p ! k / sum_list p"
  by (simp add: normalized_def)

lemma choice_p_Inr:
  assumes "choice_p a p s = Inr (j, s')"
  shows "\<exists>k < length a. j = a ! k \<and> 0 < p ! k" and "s' = s\<lparr>drawn := drawn s + 1\<rparr>"
proof -
  let ?supp = "filter (\<lambda>k. 0 < p ! k) [0..<length a]"
  from assms have ne: "?supp \<noteq> []"
    and j: "j = a ! (?supp ! (rnd s (drawn s) mod length ?supp))"
    and s': "s' = s\<lparr>drawn := drawn s + 1\<rparr>"
    by (auto simp: choice_p_def Let_def split: if_splits)
  from ne have "?supp ! (rnd s (drawn s) mod length ?supp) \<in> set ?supp"
    by (intro nth_mem) simp
  then have "?supp ! (rnd s (drawn s) mod length ?supp) < length a"
    and "0 < p ! (?supp ! (rnd s (drawn s) mod length ?supp))" by auto
  with j show "\<exists>k < length a. j = a ! k \<and> 0 < p ! k" by blast
  from s' show "s' = s\<lparr>drawn := drawn s + 1\<rparr>" .
qed

lemma finish_move_fields [simp]:
  "occ (finish_move surf V i j s) = (occ s)[j := True]"
  "attempted_moves (finish_move surf V i j s) = attempted_moves s"
  "blocked_moves (finish_move surf V i j s) = blocked_moves s"
  "successful_moves (finish_move surf V i j s) = (if j \<noteq> i then successful_moves s + 1 else successful_moves s)"
  "not_moved_moves (finish_move surf V i j s) = (if j \<noteq> i then not_moved_moves s else not_moved_moves s + 1)"
  "total_steps (finish_move surf V i j s) = total_steps s"
  "temperature (finish_move surf V i j s) = temperature s"
  "printed (finish_move surf V i j s) = (if occ s ! j then printed s @ [MoveOccupied] else printed s)"
  "length (energies (finish_move surf V i j s)) = length (energies s)"
  "length (previous_occ (finish_move surf V i j s)) = length (previous_occ s)"
  "length (previous_energies (finish_move surf V i j s)) = length (previous_energies s)"
  by (simp_all add: finish_move_def Let_def say_def)

lemma is_surrounded_cong:
  "occ s' = occ s \<Longrightarrow> is_surrounded surf s' i = is_surrounded surf s i"
  by (simp add: is_surrounded_def)

lemma move_atom_Inr_at:
  assumes wf: "wf_surface surf" and ok: "state_ok surf s"
    and run: "move_atom surf V expf s = Inr s'"
    and smp: "choice (masked (sti surf) (occ s)) s = Inr (i, t)"
  shows "i < stlen surf \<and> occ s ! i \<and>
           (if is_surrounded surf s i then blocked_result s s'
            else \<exists>j \<in> set (hop_candidates surf i). \<not> (occ s)[i := False] ! j \<and> hop_result i j s s')"
proof -
  let ?s0 = "s\<lparr>attempted_moves := attempted_moves s + 1\<rparr>"
  from smp obtain s1 where ch: "choice (masked (sti surf) (occ ?s0)) ?s0 = Inr (i, s1)"
    by (auto simp: choice_def split: if_splits)
  from choice_Inr [OF ch] have iin: "i \<in> set (masked (sti surf) (occ s))"
    and s1: "s1 = ?s0\<lparr>drawn := drawn ?s0 + 1\<rparr>" by auto
  from iin wf ok have ilt: "i < stlen surf" and io: "occ s ! i"
    by (auto simp: wf_surface_def state_ok_def masked_upt_iff)
  have sur: "is_surrounded surf s1 i = is_surrounded surf s i"
    by (rule is_surrounded_cong) (simp add: s1)
  show ?thesis
  proof (cases "is_surrounded surf s i")
    case True
    with run ch sur have "s' = s1\<lparr>blocked_moves := blocked_moves s1 + 1\<rparr>"
      by (simp add: move_atom_def Let_def)
    then have "blocked_result s s'" by (simp add: blocked_result_def same_shape_def s1)
    with True ilt io show ?thesis by simp
  next
    case False
    let ?s2 = "s1\<lparr>occ := (occ s1)[i := False]\<rparr>"
    let ?p = "hop_weights surf V expf ?s2 (hop_candidates surf i)"
    from run ch sur False obtain j s3 where
      cp: "choice_p (hop_candidates surf i) (normalized ?p) ?s2 = Inr (j, s3)"
      and s': "s' = finish_move surf V i j s3"
      by (auto simp: move_atom_def Let_def split: if_splits sum.splits)
    from choice_p_Inr [OF cp] obtain k where k: "k < length (hop_candidates surf i)"
      and j: "j = hop_candidates surf i ! k" and pk: "0 < normalized ?p ! k"
      and s3: "s3 = ?s2\<lparr>drawn := drawn ?s2 + 1\<rparr>" by blast
    from pk k have "?p ! k \<noteq> 0" by (auto simp: normalized_nth)
    with k j have free: "\<not> occ ?s2 ! j" by (auto simp: hop_weights_nth)
    then have free': "\<not> (occ s)[i := False] ! j" by (simp add: s1)
    from k j have jin: "j \<in> set (hop_candidates surf i)" by auto
    from free have "hop_result i j s s'"
      by (simp add: hop_result_def same_shape_def s' s3 s1)
    with False ilt io jin free' show ?thesis by auto
  qed
qed

lemma move_atom_Inr:
  assumes wf: "wf_surface surf" and ok: "state_ok surf s"
    and run: "move_atom surf V expf s = Inr s'"
  shows "\<exists>i. i < stlen surf \<and> occ s ! i \<and>
           (if is_surrounded surf s i then blocked_result s s'
            else \<exists>j \<in> set (hop_candidates surf i). \<not> (occ s)[i := False] ! j \<and> hop_result i j s s')"
proof -
  from run have "masked (sti surf) (occ s) \<noteq> []"
    by (auto simp: move_atom_def Let_def choice_def split: if_splits)
  then obtain i t where "choice (masked (sti surf) (occ s)) s = Inr (i, t)"
    by (auto simp: choice_def)
  from move_atom_Inr_at [OF wf ok run this] show ?thesis by blast
qed

lemma hop_candidates_lt:
  assumes wf: "wf_surface surf" and i: "i < stlen surf" and j: "j \<in> set (hop_candidates surf i)"
  shows "j < stlen surf"
proof (cases "j = i")
  case True
  with i show ?thesis by simp
next
  case False
  with j have "j \<in> set (take 3 (nni surf ! i))" by (simp add: hop_candidates_def)
  then have "j \<in> set (nni surf ! i)" by (rule in_set_takeD)
  moreover from wf i have "nni surf ! i \<in> set (nni surf)" by (simp add: wf_surface_def)
  ultimately show ?thesis using wf by (auto simp: wf_surface_def)
qed

lemma same_shape_state_ok: "same_shape s s' \<Longrightarrow> state_ok surf s \<Longrightarrow> state_ok surf s'"
  by (simp add: same_shape_def state_ok_def)

lemma hop_keeps_count:
  assumes i: "i < length xs" "xs ! i" and j: "j < length xs" "\<not> xs[i := False] ! j"
  shows "length (filter (\<lambda>b. b) (xs[i := False, j := True])) = length (filter (\<lambda>b. b) xs)"
proof -
  from i have "Suc (length (filter (\<lambda>b. b) (xs[i := False]))) = length (filter (\<lambda>b. b) xs)"
    by (rule count_update_False)
  moreover from j have "length (filter (\<lambda>b. b) (xs[i := False, j := True])) =
      Suc (length (filter (\<lambda>b. b) (xs[i := False])))"
    by (intro count_update_True) simp_all
  ultimately show ?thesis by simp
qed

lemma move_atom_summary:
  assumes wf: "wf_surface surf" and ok: "state_ok surf s"
    and run: "move_atom surf V expf s = Inr s'"
  shows "state_ok surf s'" and "atoms_on_surface s' = atoms_on_surface s"
    and "attempted_moves s' = attempted_moves s + 1"
    and "successful_moves s' + not_moved_moves s' + blocked_moves s' =
         successful_moves s + not_moved_moves s + blocked_moves s + 1"
    and "successful_moves s \<le> successful_moves s'" and "not_moved_moves s \<le> not_moved_moves s'"
    and "blocked_moves s \<le> blocked_moves s'" and "printed s' = printed s"
    and "same_shape s s'"
proof -
  from move_atom_Inr [OF wf ok run] obtain i where i: "i < stlen surf" "occ s ! i"
    and r: "if is_surrounded surf s i then blocked_result s s'
            else \<exists>j \<in> set (hop_candidates surf i). \<not> (occ s)[i := False] ! j \<and> hop_result i j s s'"
    by blast
  have "state_ok surf s' \<and> atoms_on_surface s' = atoms_on_surface s \<and>
        attempted_moves s' = attempted_moves s + 1 \<and>
        successful_moves s' + not_moved_moves s' + blocked_moves s' =
          successful_moves s + not_moved_moves s + blocked_moves s + 1 \<and>
        successful_moves s \<le> successful_moves s' \<and> not_moved_moves s \<le> not_moved_moves s' \<and>
        blocked_moves s \<le> blocked_moves s' \<and> printed s' = printed s \<and> same_shape s s'"
  proof (cases "is_surrounded surf s i")
    case True
    with r have "blocked_result s s'" by simp
    with ok show ?thesis
      by (auto simp: blocked_result_def atoms_on_surface_def intro: same_shape_state_ok)
  next
    case False
    with r obtain j where j: "j \<in> set (hop_candidates surf i)"
      and free: "\<not> (occ s)[i := False] ! j" and h: "hop_result i j s s'" by auto
    from hop_candidates_lt [OF wf i(1) j] ok have jl: "j < length (occ s)"
      by (simp add: state_ok_def)
    from i ok have il: "i < length (occ s)" by (simp add: state_ok_def)
    from h have "occ s' = (occ s)[i := False, j := True]" by (simp add: hop_result_def)
    with hop_keeps_count [OF il i(2) jl free]
    have "atoms_on_surface s' = atoms_on_surface s" by (simp add: atoms_on_surface_def)
    with h ok show ?thesis
      by (auto simp: hop_result_def intro: same_shape_state_ok)
  qed
  then show "state_ok surf s'" and "atoms_on_surface s' = atoms_on_surface s"
    and "attempted_moves s' = attempted_moves s + 1"
    and "successful_moves s' + not_moved_moves s' + blocked_moves s' =
         successful_moves s + not_moved_moves s + blocked_moves s + 1"
    and "successful_moves s \<le> successful_moves s'" and "not_moved_moves s \<le> not_moved_moves s'"
    and "blocked_moves s \<le> blocked_moves s'" and "printed s' = printed s"
    and "same_shape s s'"
    by blast+
qed

lemma move_loop_summary:
  assumes wf: "wf_surface surf"
  shows "state_ok surf s \<Longrightarrow> move_loop surf V expf n s = Inr s' \<Longrightarrow>
     state_ok surf s' \<and> atoms_on_surface s' = atoms_on_surface s \<and>
     attempted_moves s' = attempted_moves s + n \<and>
     successful_moves s' + not_moved_moves s' + blocked_moves s' =
       successful_moves s + not_moved_moves s + blocked_moves s + n \<and>
     successful_moves s \<le> successful_moves s' \<and> not_moved_moves s \<le> not_moved_moves s' \<and>
     blocked_moves s \<le> blocked_moves s' \<and> total_steps s' = total_steps s \<and>
     printed s' = printed s \<and> temperature s' = temperature s"
proof (induction n arbitrary: s)
  case 0
  then show ?case by simp
next
  case (Suc n)
  from Suc.prems(2) obtain s1 where m: "move_atom surf V expf s = Inr s1"
    and l: "move_loop surf V expf n s1 = Inr s'"
    by (auto split: sum.splits)
  note one = move_atom_summary [OF wf Suc.prems(1) m]
  from Suc.IH [OF one(1) l] one show ?case by (simp add: same_shape_def)
qed

lemma add_atom_summary:
  assumes wf: "wf_surface surf" and ok: "state_ok surf s"
    and run: "add_atom surf V s = Inr s'"
  shows "state_ok surf s'" and "atoms_on_surface s' = atoms_on_surface s + 1"
proof -
  from add_atom_Inr [OF wf ok run] obtain i where i: "i < stlen surf" "\<not> occ s ! i"
    and o: "occ s' = (occ s)[i := True]" by blast
  from add_atom_fields [OF run] ok show "state_ok surf s'" by (simp add: state_ok_def)
  from i ok have "i < length (occ s)" by (simp add: state_ok_def)
  from count_update_True [OF this i(2)] o show "atoms_on_surface s' = atoms_on_surface s + 1"
    by (simp add: atoms_on_surface_def)
qed

section \<open>Diffusion where the exponential does not underflow\<close>

lemma hop_weights_nonneg:
  assumes "\<forall>x. 0 \<le> expf x"
  shows "\<forall>w \<in> set (hop_weights surf V expf s cands). 0 \<le> w"
proof
  fix w assume "w \<in> set (hop_weights surf V expf s cands)"
  then obtain k where "k < length cands" "w = hop_weights surf V expf s cands ! k"
    by (auto simp: in_set_conv_nth)
  with assms show "0 \<le> w" by (simp add: hop_weights_nth)
qed

lemma sum_list_ge_nth:
  fixes p :: "real list"
  assumes "\<forall>w \<in> set p. 0 \<le> w" and "k < length p"
  shows "p ! k \<le> sum_list p"
  using assms
proof (induction p arbitrary: k)
  case Nil
  then show ?case by simp
next
  case (Cons a p)
  then have "0 \<le> sum_list p" by (auto intro: sum_list_nonneg)
  with Cons show ?case by (cases k) (auto simp: add.commute add_increasing)
qed

text \<open>
  Where the exponential is positive (no underflow), the vacated site keeps a positive
  weight, so the weights of the candidates never sum to zero.
\<close>

lemma hop_weights_sum_pos:
  assumes pos: "\<forall>x. 0 < expf x" and free: "\<not> occ s ! i"
  shows "0 < sum_list (hop_weights surf V expf s (hop_candidates surf i))"
proof -
  let ?p = "hop_weights surf V expf s (hop_candidates surf i)"
  have nn: "\<forall>w \<in> set ?p. 0 \<le> w" by (rule hop_weights_nonneg) (simp add: pos less_imp_le)
  have "0 < ?p ! 0" using free pos by (simp add: hop_weights_nth hop_candidates_def)
  also have "?p ! 0 \<le> sum_list ?p" by (rule sum_list_ge_nth [OF nn]) (simp add: hop_candidates_def)
  finally show ?thesis .
qed

lemma normalized_support:
  assumes pos: "\<forall>x. 0 < expf x" and free: "\<not> occ s ! i" and k: "k < length (hop_candidates surf i)"
  shows "0 < normalized (hop_weights surf V expf s (hop_candidates surf i)) ! k
           \<longleftrightarrow> \<not> occ s ! (hop_candidates surf i ! k)"
  using hop_weights_sum_pos [OF pos free, of surf V] k pos
  by (simp add: normalized_nth hop_weights_nth zero_less_divide_iff)

lemma normalized_nonneg:
  assumes pos: "\<forall>x. 0 < expf x" and free: "\<not> occ s ! i"
  shows "\<not> (\<exists>x \<in> set (normalized (hop_weights surf V expf s (hop_candidates surf i))). x < 0)"
proof -
  let ?p = "hop_weights surf V expf s (hop_candidates surf i)"
  have nn: "\<forall>w \<in> set ?p. 0 \<le> w" by (rule hop_weights_nonneg) (simp add: pos less_imp_le)
  have "0 < sum_list ?p" by (rule hop_weights_sum_pos [OF pos free])
  with nn show ?thesis by (auto simp: normalized_def not_less)
qed

lemma choice_p_exact:
  assumes pos: "\<forall>x. 0 < expf x" and free: "\<not> occ s ! i"
  shows "choice_p (hop_candidates surf i)
           (normalized (hop_weights surf V expf s (hop_candidates surf i))) s =
         Inr (hop_candidates surf i ! (free_positions surf s i ! (rnd s (drawn s) mod length (free_positions surf s i))),
              s\<lparr>drawn := drawn s + 1\<rparr>)"
proof -
  let ?c = "hop_candidates surf i"
  let ?p = "normalized (hop_weights surf V expf s ?c)"
  have supp: "filter (\<lambda>k. 0 < ?p ! k) [0..<length ?c] = free_positions surf s i"
    unfolding free_positions_def
    by (rule filter_cong [OF refl]) (simp add: normalized_support [OF pos free])
  have "0 \<in> set (free_positions surf s i)"
    using free by (simp add: free_positions_def hop_candidates_def)
  then have ne: "free_positions surf s i \<noteq> []" by auto
  show ?thesis
    using normalized_nonneg [OF pos free, of surf V] ne
    by (simp add: choice_p_def supp Let_def del: Set.bex_simps)
qed

lemma move_atom_exact:
  assumes pos: "\<forall>x. 0 < expf x" and t: "temperature s \<noteq> 0"
    and ch: "choice (masked (sti surf) (occ s)) (s\<lparr>attempted_moves := attempted_moves s + 1\<rparr>) = Inr (i, s1)"
    and il: "i < length (occ s)"
  shows "move_atom surf V expf s =
     (if is_surrounded surf s i then Inr (s1\<lparr>blocked_moves := blocked_moves s1 + 1\<rparr>)
      else
        (let s2 = s1\<lparr>occ := (occ s1)[i := False]\<rparr>;
             fp = free_positions surf s2 i;
             j = hop_candidates surf i ! (fp ! (rnd s2 (drawn s2) mod length fp))
         in Inr (finish_move surf V i j (s2\<lparr>drawn := drawn s2 + 1\<rparr>))))"
proof -
  from choice_Inr [OF ch] have s1: "s1 = s\<lparr>attempted_moves := attempted_moves s + 1, drawn := drawn s + 1\<rparr>"
    by simp
  have sur: "is_surrounded surf s1 i = is_surrounded surf s i"
    by (rule is_surrounded_cong) (simp add: s1)
  let ?s2 = "s1\<lparr>occ := (occ s1)[i := False]\<rparr>"
  from il have free: "\<not> occ ?s2 ! i" by (simp add: s1)
  from t have t2: "temperature ?s2 \<noteq> 0" by (simp add: s1)
  have sum: "sum_list (hop_weights surf V expf ?s2 (hop_candidates surf i)) \<noteq> 0"
    using hop_weights_sum_pos [OF pos free, of surf V] by simp
  show ?thesis
    using ch sur t2 sum
    by (simp add: move_atom_def Let_def choice_p_exact [OF pos free])
qed

lemma move_atom_returns:
  assumes wf: "wf_surface surf" and ok: "state_ok surf s"
    and pos: "\<forall>x. 0 < expf x" and t: "temperature s \<noteq> 0"
    and occupied: "i < stlen surf" "occ s ! i"
  shows "\<exists>s'. move_atom surf V expf s = Inr s'"
proof -
  let ?s0 = "s\<lparr>attempted_moves := attempted_moves s + 1\<rparr>"
  from wf ok occupied have "i \<in> set (masked (sti surf) (occ s))"
    by (auto simp: wf_surface_def state_ok_def masked_upt_iff)
  then have "masked (sti surf) (occ s) \<noteq> []" by auto
  then obtain i' s1 where ch: "choice (masked (sti surf) (occ s)) ?s0 = Inr (i', s1)"
    by (auto simp: choice_def)
  from choice_Inr [OF ch] wf ok have "i' < length (occ s)"
    by (auto simp: wf_surface_def state_ok_def masked_upt_iff)
  from move_atom_exact [OF pos t ch this] show ?thesis
    by (cases "is_surrounded surf s i'") (simp_all add: Let_def)
qed

lemma hop_weights_cong:
  "occ s' = occ s \<Longrightarrow> temperature s' = temperature s \<Longrightarrow>
     hop_weights surf V expf s' cands = hop_weights surf V expf s cands"
proof -
  assume a: "occ s' = occ s" "temperature s' = temperature s"
  then have "get_energy surf V s' = get_energy surf V s"
    by (simp add: get_energy_def fun_eq_iff)
  with a show ?thesis by (simp add: hop_weights_def boltzmann_T_def cong: if_cong)
qed

lemma exp_positive: "\<forall>x::real. 0 < exp x"
  by simp

text \<open>
  A sampled site whose inner surroundings are all occupied is not "surrounded" in the
  sense of the test; its three nearest neighbours are occupied, so the only free
  candidate is the site itself.
\<close>

lemma move_atom_inner_full:
  assumes wf: "wf_surface surf" and ok: "state_ok surf s"
    and smp: "choice (masked (sti surf) (occ s)) s = Inr (i, t)"
    and inner: "\<forall>k \<in> set (take 18 (nni surf ! i)). occ s ! k"
    and run: "move_atom surf V expf s = Inr s'"
  shows "blocked_moves s' = blocked_moves s \<and> not_moved_moves s' = not_moved_moves s + 1 \<and>
         successful_moves s' = successful_moves s \<and> occ s' = occ s"
proof -
  from move_atom_Inr_at [OF wf ok run smp] have i: "i < stlen surf" "occ s ! i"
    and r: "if is_surrounded surf s i then blocked_result s s'
            else \<exists>j \<in> set (hop_candidates surf i). \<not> (occ s)[i := False] ! j \<and> hop_result i j s s'"
    by auto
  from wf i(1) have "nni surf ! i \<in> set (nni surf)" by (simp add: wf_surface_def)
  with wf have "24 \<le> length (nni surf ! i)" by (auto simp: wf_surface_def)
  then have "take 18 (nni surf ! i) \<noteq> []" by auto
  then obtain k where k: "k \<in> set (take 18 (nni surf ! i))" by (cases "take 18 (nni surf ! i)") auto
  with inner have "occ s ! k" by blast
  with k have "\<not> is_surrounded surf s i" by (auto simp: is_surrounded_def gather_def)
  with r obtain j where j: "j \<in> set (hop_candidates surf i)"
    and free: "\<not> (occ s)[i := False] ! j" and h: "hop_result i j s s'" by auto
  have "j = i"
  proof (rule ccontr)
    assume ne: "j \<noteq> i"
    with j have "j \<in> set (take 3 (nni surf ! i))" by (simp add: hop_candidates_def)
    then have "j \<in> set (take 18 (nni surf ! i))"
      using set_take_subset_set_take [of 3 18 "nni surf ! i"] by auto
    with inner have "occ s ! j" by blast
    with ne free show False by simp
  qed
  moreover from i ok have "(occ s)[i := True] = occ s"
    by (simp add: state_ok_def list_update_same_conv)
  ultimately show ?thesis using h by (simp add: hop_result_def)
qed

lemma sum_list_zeros: "\<forall>w \<in> set p. w = 0 \<Longrightarrow> sum_list p = (0::real)"
  by (induction p) auto

lemma move_atom_zero_weights:
  assumes smp: "choice (masked (sti surf) (occ s)) s = Inr (i, t)"
    and ns: "\<not> is_surrounded surf s i" and tmp: "temperature s \<noteq> 0"
    and zero: "\<forall>w \<in> set (hop_weights surf V expf (s\<lparr>occ := (occ s)[i := False]\<rparr>) (hop_candidates surf i)). w = 0"
  shows "\<exists>f. move_atom surf V expf s = Inl (NormalizationFailure, f) \<and> occ f = (occ s)[i := False] \<and>
           attempted_moves f = attempted_moves s + 1"
proof -
  let ?s0 = "s\<lparr>attempted_moves := attempted_moves s + 1\<rparr>"
  from smp obtain s1 where ch: "choice (masked (sti surf) (occ ?s0)) ?s0 = Inr (i, s1)"
    by (auto simp: choice_def split: if_splits)
  from choice_Inr [OF ch] have s1: "s1 = ?s0\<lparr>drawn := drawn ?s0 + 1\<rparr>" by simp
  have sur: "is_surrounded surf s1 i = is_surrounded surf s i"
    by (rule is_surrounded_cong) (simp add: s1)
  let ?s2 = "s1\<lparr>occ := (occ s1)[i := False]\<rparr>"
  have "hop_weights surf V expf ?s2 (hop_candidates surf i) =
        hop_weights surf V expf (s\<lparr>occ := (occ s)[i := False]\<rparr>) (hop_candidates surf i)"
    by (rule hop_weights_cong) (simp_all add: s1)
  with zero have "\<forall>w \<in> set (hop_weights surf V expf ?s2 (hop_candidates surf i)). w = 0" by simp
  then have sum: "sum_list (hop_weights surf V expf ?s2 (hop_candidates surf i)) = 0"
    by (rule sum_list_zeros)
  from tmp have t2: "temperature ?s2 \<noteq> 0" by (simp add: s1)
  from ch sur ns t2 sum have "move_atom surf V expf s = Inl (NormalizationFailure, ?s2)"
    by (simp add: move_atom_def Let_def)
  then show ?thesis by (intro exI [of _ ?s2]) (simp add: s1)
qed

section \<open>The lap driver: what a step does\<close>


lemma run_step_summary:
  assumes wf: "wf_surface surf" and ok: "state_ok surf s"
    and run: "run_step surf V expf mps target s = Inr s'"
  shows "state_ok surf s'"
    and "atoms_on_surface s' = (if coverage s < target then atoms_on_surface s + 1 else atoms_on_surface s)"
    and "attempted_moves s' = attempted_moves s + mps * atoms_on_surface s'"
    and "total_steps s' = total_steps s + 1"
    and "successful_moves s' + not_moved_moves s' + blocked_moves s' =
         successful_moves s + not_moved_moves s + blocked_moves s + mps * atoms_on_surface s'"
    and "successful_moves s \<le> successful_moves s'" and "not_moved_moves s \<le> not_moved_moves s'"
    and "blocked_moves s \<le> blocked_moves s'"
proof -
  let ?dep = "if coverage s < target then add_atom surf V s else Inr s"
  from run obtain s1 s2 where dep: "?dep = Inr s1"
    and mv: "move_loop surf V expf (mps * atoms_on_surface s1) s1 = Inr s2"
    and s': "s' = s2\<lparr>total_steps := total_steps s2 + 1\<rparr>"
    by (auto simp: run_step_def split: if_splits sum.splits)
  have d: "state_ok surf s1 \<and>
      atoms_on_surface s1 = (if coverage s < target then atoms_on_surface s + 1 else atoms_on_surface s) \<and>
      attempted_moves s1 = attempted_moves s \<and> successful_moves s1 = successful_moves s \<and>
      not_moved_moves s1 = not_moved_moves s \<and> blocked_moves s1 = blocked_moves s \<and>
      total_steps s1 = total_steps s"
  proof (cases "coverage s < target")
    case True
    with dep have a: "add_atom surf V s = Inr s1" by simp
    from add_atom_summary [OF wf ok a] add_atom_fields [OF a] True show ?thesis by simp
  next
    case False
    with dep ok show ?thesis by simp
  qed
  then have ok1: "state_ok surf s1" by simp
  note m = move_loop_summary [OF wf ok1 mv]
  have at: "atoms_on_surface s' = atoms_on_surface s2" by (simp add: s' atoms_on_surface_def)
  from m show "state_ok surf s'" by (simp add: s' state_ok_def)
  from m d at show "atoms_on_surface s' = (if coverage s < target then atoms_on_surface s + 1 else atoms_on_surface s)"
    by simp
  from m d at show "attempted_moves s' = attempted_moves s + mps * atoms_on_surface s'"
    by (simp add: s')
  from m d show "total_steps s' = total_steps s + 1" by (simp add: s')
  from m d at show "successful_moves s' + not_moved_moves s' + blocked_moves s' =
         successful_moves s + not_moved_moves s + blocked_moves s + mps * atoms_on_surface s'"
    by (simp add: s')
  from m d show "successful_moves s \<le> successful_moves s'" "not_moved_moves s \<le> not_moved_moves s'"
    "blocked_moves s \<le> blocked_moves s'" by (simp_all add: s')
qed

lemma run_steps_summary:
  assumes wf: "wf_surface surf"
  shows "state_ok surf s \<Longrightarrow> run_steps surf V expf mps target n s = Inr s' \<Longrightarrow>
     state_ok surf s' \<and> atoms_on_surface s \<le> atoms_on_surface s' \<and>
     atoms_on_surface s' \<le> atoms_on_surface s + n \<and>
     (\<not> coverage s < target \<longrightarrow> atoms_on_surface s' = atoms_on_surface s) \<and>
     total_steps s' = total_steps s + n \<and>
     attempted_moves s \<le> attempted_moves s' \<and>
     successful_moves s' + not_moved_moves s' + blocked_moves s' + attempted_moves s =
       successful_moves s + not_moved_moves s + blocked_moves s + attempted_moves s' \<and>
     successful_moves s \<le> successful_moves s' \<and> not_moved_moves s \<le> not_moved_moves s' \<and>
     blocked_moves s \<le> blocked_moves s'"
proof (induction n arbitrary: s)
  case 0
  then show ?case by simp
next
  case (Suc n)
  from Suc.prems(2) obtain s1 where st: "run_step surf V expf mps target s = Inr s1"
    and rest: "run_steps surf V expf mps target n s1 = Inr s'"
    by (auto split: sum.splits)
  note one = run_step_summary [OF wf Suc.prems(1) st]
  note ih = Suc.IH [OF one(1) rest]
  have len: "length (occ s1) = length (occ s)"
    using one(1) Suc.prems(1) by (simp add: state_ok_def)
  have keep: "\<not> coverage s < target \<Longrightarrow> \<not> coverage s1 < target"
  proof -
    assume a: "\<not> coverage s < target"
    with one(2) have "atoms_on_surface s1 = atoms_on_surface s" by simp
    with len have "coverage s1 = coverage s" by (simp add: coverage_def)
    with a show ?thesis by simp
  qed
  from ih one keep show ?case by (auto split: if_splits)
qed

lemma exists_free: "length (filter (\<lambda>b. b) xs) < length xs \<Longrightarrow> \<exists>i < length xs. \<not> xs ! i"
proof (rule ccontr)
  assume less: "length (filter (\<lambda>b. b) xs) < length xs" and "\<not> (\<exists>i < length xs. \<not> xs ! i)"
  then have "\<forall>b \<in> set xs. b" by (auto simp: all_set_conv_all_nth)
  then have "filter (\<lambda>b. b) xs = xs" by (simp add: filter_id_conv)
  with less show False by simp
qed

lemma exists_occupied: "0 < length (filter (\<lambda>b. b) xs) \<Longrightarrow> \<exists>i < length xs. xs ! i"
proof -
  assume "0 < length (filter (\<lambda>b. b) xs)"
  then obtain b where "b \<in> set (filter (\<lambda>b. b) xs)" by (cases "filter (\<lambda>b. b) xs") auto
  then have "True \<in> set xs" by auto
  then show ?thesis by (auto simp: in_set_conv_nth)
qed

lemma move_loop_returns:
  assumes wf: "wf_surface surf" and pos: "\<forall>x. 0 < expf x"
  shows "state_ok surf s \<Longrightarrow> temperature s \<noteq> 0 \<Longrightarrow> (0 < n \<longrightarrow> 0 < atoms_on_surface s) \<Longrightarrow>
     \<exists>s'. move_loop surf V expf n s = Inr s'"
proof (induction n arbitrary: s)
  case 0
  then show ?case by simp
next
  case (Suc n)
  from Suc.prems(3) have "0 < length (filter (\<lambda>b. b) (occ s))" by (simp add: atoms_on_surface_def)
  from exists_occupied [OF this] Suc.prems(1) obtain i where "i < stlen surf" "occ s ! i"
    by (auto simp: state_ok_def)
  from move_atom_returns [OF wf Suc.prems(1) pos Suc.prems(2) this]
  obtain s1 where m: "move_atom surf V expf s = Inr s1" by blast
  note one = move_atom_summary [OF wf Suc.prems(1) m]
  from one(9) Suc.prems(2) have t1: "temperature s1 \<noteq> 0" by (simp add: same_shape_def)
  from one(2) Suc.prems(3) have "0 < n \<longrightarrow> 0 < atoms_on_surface s1" by simp
  from Suc.IH [OF one(1) t1 this] m show ?case by simp
qed

lemma run_step_temperature:
  assumes wf: "wf_surface surf" and ok: "state_ok surf s"
    and run: "run_step surf V expf mps target s = Inr s'"
  shows "temperature s' = temperature s"
proof -
  let ?dep = "if coverage s < target then add_atom surf V s else Inr s"
  from run obtain s1 s2 where dep: "?dep = Inr s1"
    and mv: "move_loop surf V expf (mps * atoms_on_surface s1) s1 = Inr s2"
    and s': "s' = s2\<lparr>total_steps := total_steps s2 + 1\<rparr>"
    by (auto simp: run_step_def split: if_splits sum.splits)
  have d: "state_ok surf s1 \<and> temperature s1 = temperature s"
  proof (cases "coverage s < target")
    case True
    with dep have a: "add_atom surf V s = Inr s1" by simp
    from add_atom_summary(1) [OF wf ok a] add_atom_fields(6) [OF a] show ?thesis by simp
  next
    case False
    with dep ok show ?thesis by simp
  qed
  with move_loop_summary [OF wf _ mv] show ?thesis by (simp add: s')
qed

lemma run_step_returns:
  assumes wf: "wf_surface surf" and ok: "state_ok surf s" and pos: "\<forall>x. 0 < expf x"
    and tmp: "temperature s \<noteq> 0" and sites: "0 < stlen surf" and target: "target \<le> 1"
  shows "\<exists>s'. run_step surf V expf mps target s = Inr s'"
proof -
  from ok sites have len: "0 < length (occ s)" by (simp add: state_ok_def)
  have "\<exists>s1. (if coverage s < target then add_atom surf V s else Inr s) = Inr s1 \<and>
          state_ok surf s1 \<and> temperature s1 \<noteq> 0"
  proof (cases "coverage s < target")
    case True
    with target have "coverage s < 1" by simp
    with len have "atoms_on_surface s < length (occ s)" by (simp add: coverage_def)
    then obtain i where "i < length (occ s)" "\<not> occ s ! i"
      using exists_free [of "occ s"] by (auto simp: atoms_on_surface_def)
    with ok have "i < stlen surf" "\<not> occ s ! i" by (simp_all add: state_ok_def)
    from add_atom_returns [OF wf ok this] obtain s1 where a: "add_atom surf V s = Inr s1" by blast
    from add_atom_summary(1) [OF wf ok a] add_atom_fields(6) [OF a] tmp True a
    show ?thesis by simp
  next
    case False
    with ok tmp show ?thesis by simp
  qed
  then obtain s1 where dep: "(if coverage s < target then add_atom surf V s else Inr s) = Inr s1"
    and ok1: "state_ok surf s1" and t1: "temperature s1 \<noteq> 0" by blast
  have "0 < mps * atoms_on_surface s1 \<longrightarrow> 0 < atoms_on_surface s1" by simp
  from move_loop_returns [OF wf pos ok1 t1 this] obtain s2
    where "move_loop surf V expf (mps * atoms_on_surface s1) s1 = Inr s2" by blast
  with dep len show ?thesis by (simp add: run_step_def)
qed

lemma run_steps_returns:
  assumes wf: "wf_surface surf" and pos: "\<forall>x. 0 < expf x"
    and sites: "0 < stlen surf" and target: "target \<le> 1"
  shows "state_ok surf s \<Longrightarrow> temperature s \<noteq> 0 \<Longrightarrow>
     \<exists>s'. run_steps surf V expf mps target n s = Inr s'"
proof (induction n arbitrary: s)
  case 0
  then show ?case by simp
next
  case (Suc n)
  from run_step_returns [OF wf Suc.prems(1) pos Suc.prems(2) sites target]
  obtain s1 where st: "run_step surf V expf mps target s = Inr s1" by blast
  from run_step_summary(1) [OF wf Suc.prems(1) st] have ok1: "state_ok surf s1" .
  from run_step_temperature [OF wf Suc.prems(1) st] Suc.prems(2) have "temperature s1 \<noteq> 0" by simp
  from Suc.IH [OF ok1 this] st show ?case by simp
qed

text \<open>
  The lap driver returns: on a lattice with sites, at a temperature other than zero, for
  a target coverage of at most 1 and an exponential that does not underflow.
\<close>

lemma run_lap_returns:
  assumes "wf_surface surf" and "state_ok surf s" and "\<forall>x. 0 < expf x"
    and "temperature s \<noteq> 0" and "0 < stlen surf" and "target \<le> 1"
  shows "\<exists>s'. run_lap surf V expf n mps target s = Inr s'"
  unfolding run_lap_def using run_steps_returns [OF assms(1,3,5,6,2,4)] .

section \<open>The energy bookkeeping: what the operations keep\<close>

lemma foldl_update_nth:
  "n < length es \<Longrightarrow>
     foldl (\<lambda>es k. es[k := f k]) es idx ! n = (if n \<in> set idx then f n else es ! n)"
  by (induction idx arbitrary: es) (auto simp: nth_list_update)

lemma update_energy_nth:
  assumes "n < length (energies s)"
  shows "energies (update_energy surf V idx s) ! n =
     (if n \<in> set idx then (if occ s ! n then get_energy surf V s n else 0) else energies s ! n)"
  using assms by (simp add: update_energy_def Let_def foldl_update_nth)

lemma update_energy_sum:
  "energy (update_energy surf V idx s) = sum_list (energies (update_energy surf V idx s))"
  by (simp add: update_energy_def Let_def)

text \<open>
  \<open>update_energy\<close> leaves every free site with the energy zero, if the free sites that it
  does not visit had it before.
\<close>

lemma update_energy_zero:
  assumes len: "length (energies s) = length (occ s)"
    and rest: "\<forall>i < length (occ s). \<not> occ s ! i \<and> i \<notin> set idx \<longrightarrow> energies s ! i = 0"
  shows "zero_where_free (update_energy surf V idx s)"
  using assms by (simp add: zero_where_free_def update_energy_nth)

lemma update_energy_consistent:
  assumes len: "length (energies s) = length (occ s)" and z: "zero_where_free s"
  shows "energy_consistent (update_energy surf V idx s)"
proof -
  from z have "\<forall>i < length (occ s). \<not> occ s ! i \<and> i \<notin> set idx \<longrightarrow> energies s ! i = 0"
    by (simp add: zero_where_free_def)
  from update_energy_zero [OF len this] len show ?thesis
    by (simp add: energy_consistent_def update_energy_sum)
qed

lemma init_sim_consistent: "energy_consistent (init_sim surf t0 r)"
  by (simp add: energy_consistent_def zero_where_free_def init_sim_def sum_list_replicate)

lemma prepopulate_consistent:
  assumes "length (energies s) = length (occ s)" and "length (occ s) = stlen surf"
  shows "energy_consistent (prepopulate surf V c s)"
proof -
  let ?s2 = "s\<lparr>add_prepopulated := length c, occ := foldl (\<lambda>oc k. oc[k := True]) (occ s) c\<rparr>"
  have len: "length (energies ?s2) = length (occ ?s2)" using assms(1) by simp
  have "\<forall>i < length (occ ?s2). \<not> occ ?s2 ! i \<and> i \<notin> set [0..<stlen surf] \<longrightarrow> energies ?s2 ! i = 0"
    using assms(2) by simp
  from update_energy_zero [OF len this, of surf V] len
  have "energy_consistent (update_energy surf V [0..<stlen surf] ?s2)"
    by (simp add: energy_consistent_def update_energy_sum)
  then show ?thesis
    by (simp add: prepopulate_def Let_def energy_consistent_def zero_where_free_def)
qed

lemma add_atom_consistent:
  assumes wf: "wf_surface surf" and ok: "state_ok surf s"
    and inv: "energy_consistent s" and run: "add_atom surf V s = Inr s'"
  shows "energy_consistent s'"
proof -
  let ?cands = "masked (sti surf) (map Not (occ s))"
  from run obtain cur b s1 where
    srch: "add_search surf ?cands (stlen surf) None s = Inr ((cur, b), s1)"
    by (auto simp: add_atom_def Let_def split: sum.splits)
  from add_search_Inr [OF srch] obtain d where s1: "s1 = s\<lparr>drawn := d\<rparr>" by blast
  from run srch obtain i where i: "cur = Some i"
    by (cases cur) (auto simp: add_atom_def Let_def)
  define s3 where "s3 = (if occ (if \<not> b then say (TryToAdd (stlen surf)) s1 else s1) ! i
      then say AddOccupied (if \<not> b then say (TryToAdd (stlen surf)) s1 else s1)
      else (if \<not> b then say (TryToAdd (stlen surf)) s1 else s1))"
  have s3: "occ s3 = occ s" "energies s3 = energies s"
    by (simp_all add: s3_def s1 say_def)
  let ?u = "s3\<lparr>occ := (occ s3)[i := True]\<rparr>"
  from run srch i have s': "s' = update_energy surf V [i] (update_energy surf V (nni surf ! i) ?u)"
    by (simp add: add_atom_def Let_def s3_def)
  from inv have len: "length (energies ?u) = length (occ ?u)"
    by (simp add: energy_consistent_def s3)
  have "zero_where_free ?u"
    unfolding zero_where_free_def
  proof (intro allI impI)
    fix k assume k: "k < length (occ ?u)" and free: "\<not> occ ?u ! k"
    then have "\<not> occ s ! k" by (cases "k = i") (simp_all add: s3)
    with k inv show "energies ?u ! k = 0"
      by (simp add: energy_consistent_def zero_where_free_def s3)
  qed
  from update_energy_consistent [OF len this, of surf V "nni surf ! i"]
  have "energy_consistent (update_energy surf V (nni surf ! i) ?u)" .
  then have "energy_consistent (update_energy surf V [i] (update_energy surf V (nni surf ! i) ?u))"
    by (intro update_energy_consistent) (simp_all add: energy_consistent_def)
  with s' show ?thesis by simp
qed

lemma finish_move_energies:
  "energies (finish_move surf V i j s) =
     energies (update_energy surf V [i, j]
       (update_energy surf V (hop_candidates surf i) (s\<lparr>occ := (occ s)[j := True]\<rparr>)))"
  "energy (finish_move surf V i j s) =
     energy (update_energy surf V [i, j]
       (update_energy surf V (hop_candidates surf i) (s\<lparr>occ := (occ s)[j := True]\<rparr>)))"
  by (simp_all add: finish_move_def Let_def say_def update_energy_def get_energy_def cong: if_cong)


lemma move_atom_consistent:
  assumes wf: "wf_surface surf" and ok: "state_ok surf s"
    and inv: "energy_consistent s" and run: "move_atom surf V expf s = Inr s'"
  shows "energy_consistent s'"
proof -
  let ?s0 = "s\<lparr>attempted_moves := attempted_moves s + 1\<rparr>"
  from run obtain i s1 where ch: "choice (masked (sti surf) (occ ?s0)) ?s0 = Inr (i, s1)"
    by (auto simp: move_atom_def Let_def split: sum.splits)
  from choice_Inr [OF ch] have s1: "s1 = ?s0\<lparr>drawn := drawn ?s0 + 1\<rparr>" by simp
  show ?thesis
  proof (cases "is_surrounded surf s1 i")
    case True
    with run ch have "s' = s1\<lparr>blocked_moves := blocked_moves s1 + 1\<rparr>"
      by (simp add: move_atom_def Let_def)
    with inv show ?thesis by (simp add: energy_consistent_def zero_where_free_def s1)
  next
    case False
    let ?s2 = "s1\<lparr>occ := (occ s1)[i := False]\<rparr>"
    let ?p = "hop_weights surf V expf ?s2 (hop_candidates surf i)"
    from run ch False obtain j s3 where
      cp: "choice_p (hop_candidates surf i) (normalized ?p) ?s2 = Inr (j, s3)"
      and s': "s' = finish_move surf V i j s3"
      by (auto simp: move_atom_def Let_def split: if_splits sum.splits)
    from choice_p_Inr(2) [OF cp] have s3: "s3 = ?s2\<lparr>drawn := drawn ?s2 + 1\<rparr>" .
    let ?u = "s3\<lparr>occ := (occ s3)[j := True]\<rparr>"
    let ?v = "update_energy surf V (hop_candidates surf i) ?u"
    let ?w = "update_energy surf V [i, j] ?v"
    have ou: "occ ?u = (occ s)[i := False, j := True]" and eu: "energies ?u = energies s"
      by (simp_all add: s3 s1)
    from inv have len: "length (energies ?u) = length (occ ?u)"
      by (simp add: energy_consistent_def ou eu)
    have rest: "\<forall>k < length (occ ?u). \<not> occ ?u ! k \<and> k \<notin> set (hop_candidates surf i) \<longrightarrow>
        energies ?u ! k = 0"
    proof (intro allI impI)
      fix k assume k: "k < length (occ ?u)"
        and f: "\<not> occ ?u ! k \<and> k \<notin> set (hop_candidates surf i)"
      then have ki: "k \<noteq> i" by (auto simp: hop_candidates_def)
      from k have kl: "k < length (occ s)" by (simp add: ou)
      from f kl ki have "\<not> occ s ! k" unfolding ou by (cases "k = j") simp_all
      with kl inv show "energies ?u ! k = 0"
        by (simp add: energy_consistent_def zero_where_free_def eu)
    qed
    from update_energy_zero [OF len rest] have "zero_where_free ?v" .
    moreover from len have "length (energies ?v) = length (occ ?v)" by simp
    ultimately have w: "energy_consistent ?w" by (intro update_energy_consistent)
    have "occ s' = occ ?w" by (simp add: s')
    moreover have "energies s' = energies ?w" "energy s' = energy ?w"
      unfolding s' by (rule finish_move_energies)+
    ultimately show ?thesis using w by (simp add: energy_consistent_def zero_where_free_def)
  qed
qed

text \<open>
  The parts of the energy invariant that hold at every state of a run: the total is the
  sum of the stored energies and a free site has the stored energy zero, at the state
  that the constructor builds and after \<open>prepopulate\<close>, \<open>update_energy\<close>, \<open>add_atom\<close>
  and \<open>move_atom\<close>.
\<close>

lemma energy_consistent_kept:
  assumes "wf_surface surf" and "state_ok surf s" and "energy_consistent s"
  shows "energy_consistent (init_sim surf t0 r)"
    and "energy_consistent (prepopulate surf V c s)"
    and "energy_consistent (update_energy surf V idx s)"
    and "add_atom surf V s = Inr s' \<Longrightarrow> energy_consistent s'"
    and "move_atom surf V expf s = Inr s' \<Longrightarrow> energy_consistent s'"
proof -
  show "energy_consistent (init_sim surf t0 r)" by (rule init_sim_consistent)
  from assms(2,3) show "energy_consistent (prepopulate surf V c s)"
    by (intro prepopulate_consistent) (simp_all add: energy_consistent_def state_ok_def)
  from assms(3) show "energy_consistent (update_energy surf V idx s)"
    by (intro update_energy_consistent) (simp_all add: energy_consistent_def)
  show "add_atom surf V s = Inr s' \<Longrightarrow> energy_consistent s'"
    by (rule add_atom_consistent [OF assms])
  show "move_atom surf V expf s = Inr s' \<Longrightarrow> energy_consistent s'"
    by (rule move_atom_consistent [OF assms])
qed

section \<open>The concrete lattices and states are well formed\<close>

lemma wf_cube: "wf_surface cube"
  by (simp add: wf_surface_def cube_def upt_rec)

lemma wf_one_site: "wf_surface one_site"
  by (simp add: wf_surface_def one_site_def)

lemma bare_reached: "init_sim cube 300 (\<lambda>n. n) = bare"
  by (simp add: init_sim_def bare_def cube_def eval_nat_numeral)

lemma two_atoms_reached: "prepopulate cube bonds [0, 3] bare = two_atoms"
  by (simp add: prepopulate_def bare_def two_atoms_def cube_def update_energy_def
      keep_modification_def Let_def get_energy_def gather_def bonds_def eval_nat_numeral upt_rec)

lemma packed_reached: "prepopulate cube bonds [0, 1, 2, 3, 4, 5, 6, 7] bare = packed"
  by (simp add: prepopulate_def bare_def packed_def cube_def update_energy_def
      keep_modification_def Let_def get_energy_def gather_def bonds_def eval_nat_numeral upt_rec)

lemma cold_reached:
  "prepopulate cube repel [0, 1, 6] (init_sim cube 1 (\<lambda>n. n)) = cold"
  by (simp add: prepopulate_def init_sim_def cold_def cube_def update_energy_def
      keep_modification_def Let_def get_energy_def gather_def repel_def eval_nat_numeral upt_rec)

lemma lone_reached:
  "prepopulate one_site bonds [0] (init_sim one_site 300 (\<lambda>n. n)) = lone"
  by (simp add: prepopulate_def init_sim_def lone_def one_site_def update_energy_def
      keep_modification_def Let_def get_energy_def gather_def bonds_def eval_nat_numeral upt_rec)

lemma ok_states:
  "state_ok cube bare" "state_ok cube two_atoms" "state_ok cube packed" "state_ok cube cold"
  "state_ok one_site lone"
  by (simp_all add: state_ok_def cube_def one_site_def bare_def two_atoms_def packed_def
      cold_def lone_def)

lemma all_occupied_iff: "length xs = n \<Longrightarrow> (\<forall>i < n. xs ! i) \<longleftrightarrow> (\<forall>b \<in> set xs. b)"
  by (auto simp: all_set_conv_all_nth)

lemma two_atoms_sampled:
  "choice (masked (sti cube) (occ two_atoms)) (two_atoms\<lparr>attempted_moves := attempted_moves two_atoms + 1\<rparr>)
     = Inr (0, two_atoms\<lparr>attempted_moves := 1, drawn := 1\<rparr>)"
  by (simp add: choice_def masked_def cube_def two_atoms_def)

lemma two_atoms_moved: "move_atom cube bonds exp two_atoms = Inr moved"
  apply (subst move_atom_exact [OF exp_positive _ two_atoms_sampled])
    apply (simp_all add: two_atoms_def)
  apply (simp add: is_surrounded_def gather_def cube_def Let_def free_positions_def hop_candidates_def
      finish_move_def update_energy_def keep_modification_def get_energy_def bonds_def say_def moved_def)
  done


lemma cube_runs:
  "target \<le> 1 \<Longrightarrow> \<exists>s'. run_lap cube bonds exp n mps target two_atoms = Inr s'"
  by (rule run_lap_returns [OF wf_cube ok_states(2) exp_positive]) (simp_all add: two_atoms_def cube_def)



text \<open>
  On the cube with atoms at the sites 0 and 3 every free site has an atom in its exclusion
  zone: the eight attempts of \<open>add_atom\<close> fail, and the last candidate is occupied all
  the same.
\<close>

lemma two_atoms_exhausts:
  "case add_atom cube bonds two_atoms of
     Inl e \<Rightarrow> False
   | Inr s' \<Rightarrow> printed s' = [TryToAdd 8] \<and>
       occ s' = [True, False, True, True, False, False, False, False]"
  by code_simp

section \<open>The claims about deposition\<close>

text \<open>
  On the cube with every site occupied, \<open>add_atom\<close> does not print the line of the
  exhausted attempts: \<^verbatim>\<open>np.random.choice\<close> raises on the empty array of free sites at
  the first attempt, and the call ends there. The state is the one before the call.
\<close>

theorem add_atom_full_lattice_counterexample:
  "occ packed = replicate 8 True \<and> stlen cube = 8 \<and>
   add_atom cube bonds packed = Inl (EmptyPopulation, packed) \<and> printed packed = []"
proof -
  have "\<forall>i < stlen cube. occ packed ! i"
    by (subst all_occupied_iff) (simp_all add: cube_def packed_def)
  from add_atom_full [OF wf_cube ok_states(3) _ this, of bonds]
  have "add_atom cube bonds packed = Inl (EmptyPopulation, packed)" by (simp add: cube_def)
  then show ?thesis by (simp add: packed_def cube_def eval_nat_numeral)
qed

text \<open>
  C3, as the code has it: when every site of a lattice with at least one site is
  occupied, \<open>add_atom\<close> raises the sampler's error on the empty array of free sites. It
  prints nothing and changes nothing: the state at the error is the state before the call,
  so the occupancy is unchanged.
\<close>

theorem add_atom_full_lattice:
  assumes "wf_surface surf" and "state_ok surf s" and "0 < stlen surf"
    and "\<forall>i < stlen surf. occ s ! i"
  shows "add_atom surf V s = Inl (EmptyPopulation, s)"
  using assms by (rule add_atom_full)

theorem add_atom_full_lattice_witness:
  "wf_surface one_site \<and> state_ok one_site lone \<and> 0 < stlen one_site \<and>
   occ lone = [True] \<and> add_atom one_site bonds lone = Inl (EmptyPopulation, lone)"
proof -
  have full: "\<forall>i < stlen one_site. occ lone ! i" by (simp add: one_site_def lone_def)
  have pos: "0 < stlen one_site" by (simp add: one_site_def)
  from add_atom_full_lattice [OF wf_one_site ok_states(5) pos full, of bonds] wf_one_site ok_states(5) pos
  show ?thesis by (simp add: lone_def)
qed

text \<open>
  C5: a call of \<open>add_atom\<close> that succeeds (it returns and has printed nothing: the line
  of the exhausted attempts is printed exactly when the search fails) leaves one more
  occupied site than before, and it occupied a free site \<open>i\<close> whose exclusion zone, the
  first nine entries of its row, was free of atoms before the call.
\<close>

theorem add_atom_success:
  assumes "wf_surface surf" and "state_ok surf s"
    and "add_atom surf V s = Inr s'" and "printed s' = printed s"
  shows "atoms_on_surface s' = atoms_on_surface s + 1 \<and>
         (\<exists>i < stlen surf. \<not> occ s ! i \<and> occ s' = (occ s)[i := True] \<and>
            (\<forall>k \<in> set (take 9 (nni surf ! i)). \<not> occ s ! k))"
  using add_atom_Inr [OF assms(1-3)] add_atom_summary(2) [OF assms(1-3)] assms(4) by auto

theorem add_atom_success_witness:
  "wf_surface cube \<and> state_ok cube bare \<and>
   (\<exists>s'. add_atom cube bonds bare = Inr s' \<and> printed s' = printed bare \<and>
      atoms_on_surface s' = atoms_on_surface bare + 1 \<and>
      (\<exists>i < stlen cube. \<not> occ bare ! i \<and> occ s' = (occ bare)[i := True] \<and>
         (\<forall>k \<in> set (take 9 (nni cube ! i)). \<not> occ bare ! k)))"
proof -
  have "case add_atom cube bonds bare of Inl e \<Rightarrow> False | Inr s' \<Rightarrow> printed s' = printed bare"
    by code_simp
  then obtain s' where run: "add_atom cube bonds bare = Inr s'" and pr: "printed s' = printed bare"
    by (cases "add_atom cube bonds bare") auto
  from add_atom_success [OF wf_cube ok_states(1) run pr] run pr wf_cube ok_states(1)
  show ?thesis by blast
qed

text \<open>
  C9: when some site is free at the entry of \<open>add_atom\<close>, the call returns. The
  sampling loop hands over a candidate \<open>i\<close> that was free at entry and leaves the
  occupancy as it was, the call occupies that \<open>i\<close> and nothing else, so the number of
  atoms grows by exactly one; the only line it can print is the one of the exhausted
  attempts, never the one of the occupied position.
\<close>

theorem add_atom_always_deposits:
  assumes "wf_surface surf" and "state_ok surf s"
    and "i0 < stlen surf" and "\<not> occ s ! i0"
  shows "\<exists>s' i b t. add_atom surf V s = Inr s' \<and>
           add_search surf (masked (sti surf) (map Not (occ s))) (stlen surf) None s = Inr ((Some i, b), t) \<and>
           occ t = occ s \<and> i < stlen surf \<and> \<not> occ s ! i \<and> occ s' = (occ s)[i := True] \<and>
           atoms_on_surface s' = atoms_on_surface s + 1 \<and>
           (printed s' = printed s \<or> printed s' = printed s @ [TryToAdd (stlen surf)])"
proof -
  from add_atom_returns [OF assms] obtain s' where run: "add_atom surf V s = Inr s'" by blast
  from add_atom_search [OF assms(1,2) run] obtain i b t where
    "add_search surf (masked (sti surf) (map Not (occ s))) (stlen surf) None s = Inr ((Some i, b), t)"
    "occ t = occ s" "i < stlen surf" "\<not> occ s ! i" "occ s' = (occ s)[i := True]" by blast
  moreover from add_atom_Inr [OF assms(1,2) run]
  have "printed s' = printed s \<or> printed s' = printed s @ [TryToAdd (stlen surf)]" by blast
  moreover note add_atom_summary(2) [OF assms(1,2) run] run
  ultimately show ?thesis by blast
qed

theorem add_atom_always_deposits_witness:
  "wf_surface cube \<and> state_ok cube two_atoms \<and> 1 < stlen cube \<and> \<not> occ two_atoms ! 1 \<and>
   (\<exists>s' i b t. add_atom cube bonds two_atoms = Inr s' \<and>
      add_search cube (masked (sti cube) (map Not (occ two_atoms))) (stlen cube) None two_atoms = Inr ((Some i, b), t) \<and>
      occ t = occ two_atoms \<and> i < stlen cube \<and> \<not> occ two_atoms ! i \<and> occ s' = (occ two_atoms)[i := True] \<and>
      atoms_on_surface s' = atoms_on_surface two_atoms + 1 \<and>
      printed s' = printed two_atoms @ [TryToAdd (stlen cube)])"
proof -
  have a: "1 < stlen cube" by (simp add: cube_def)
  have b: "\<not> occ two_atoms ! 1" by (simp add: two_atoms_def)
  from add_atom_always_deposits [OF wf_cube ok_states(2) a b, of bonds]
  obtain s' i c t where run: "add_atom cube bonds two_atoms = Inr s'"
    and rest: "add_search cube (masked (sti cube) (map Not (occ two_atoms))) (stlen cube) None two_atoms = Inr ((Some i, c), t)"
      "occ t = occ two_atoms" "i < stlen cube" "\<not> occ two_atoms ! i" "occ s' = (occ two_atoms)[i := True]"
      "atoms_on_surface s' = atoms_on_surface two_atoms + 1"
    by blast
  from two_atoms_exhausts run have "printed s' = [TryToAdd 8]" by simp
  then have "printed s' = printed two_atoms @ [TryToAdd (stlen cube)]"
    by (simp add: two_atoms_def cube_def)
  with run rest a b wf_cube ok_states(2) show ?thesis by blast
qed

section \<open>The claims about diffusion\<close>

text \<open>
  On the one-site lattice the single atom has its encasing ring and its inner
  surroundings fully occupied (every entry of its row is the site itself), and
  \<open>move_atom\<close> does not count a blocked move: the test asks for inner surroundings
  without any atom. The step runs on, the atom stays where it is and the move is counted
  as not moved.
\<close>

theorem move_atom_shells_full_counterexample:
  "occ lone = [True] \<and>
   choice (masked (sti one_site) (occ lone)) lone = Inr (0, lone\<lparr>drawn := 1\<rparr>) \<and>
   gather (occ lone) (drop 18 (take 24 (nni one_site ! 0))) = replicate 6 True \<and>
   gather (occ lone) (take 18 (nni one_site ! 0)) = replicate 18 True \<and>
   (case move_atom one_site bonds exp lone of
      Inl e \<Rightarrow> False
    | Inr s' \<Rightarrow> blocked_moves s' = blocked_moves lone \<and>
               not_moved_moves s' = not_moved_moves lone + 1 \<and> occ s' = occ lone)"
proof -
  have smp: "choice (masked (sti one_site) (occ lone)) lone = Inr (0, lone\<lparr>drawn := 1\<rparr>)"
    by (simp add: choice_def masked_def one_site_def lone_def)
  have inner: "\<forall>k \<in> set (take 18 (nni one_site ! 0)). occ lone ! k"
    by (simp add: one_site_def lone_def)
  have "\<exists>s'. move_atom one_site bonds exp lone = Inr s'"
    by (rule move_atom_returns [OF wf_one_site ok_states(5) exp_positive, of 0])
       (simp_all add: lone_def one_site_def)
  then obtain s' where run: "move_atom one_site bonds exp lone = Inr s'" by blast
  from move_atom_inner_full [OF wf_one_site ok_states(5) smp inner run] run smp
  show ?thesis by (simp add: one_site_def lone_def gather_def eval_nat_numeral)
qed

text \<open>
  C2, as the code has it: when the sampled site has its encasing ring (entries 18 to 24)
  and its inner surroundings (entries 0 to 18) fully occupied, a call of \<open>move_atom\<close>
  that returns leaves the occupancy unchanged and \<open>blocked_moves\<close> as it was; it
  counts one more in \<open>not_moved_moves\<close>.
\<close>

theorem move_atom_shells_full:
  assumes "wf_surface surf" and "state_ok surf s"
    and "choice (masked (sti surf) (occ s)) s = Inr (i, t)"
    and "\<forall>k \<in> set (drop 18 (take 24 (nni surf ! i))). occ s ! k"
    and "\<forall>k \<in> set (take 18 (nni surf ! i)). occ s ! k"
    and "move_atom surf V expf s = Inr s'"
  shows "blocked_moves s' = blocked_moves s \<and> not_moved_moves s' = not_moved_moves s + 1 \<and>
         occ s' = occ s"
  using move_atom_inner_full [OF assms(1-3) assms(5,6)] by simp

theorem move_atom_shells_full_witness:
  "wf_surface cube \<and> state_ok cube packed \<and>
   choice (masked (sti cube) (occ packed)) packed = Inr (0, packed\<lparr>drawn := 1\<rparr>) \<and>
   gather (occ packed) (drop 18 (take 24 (nni cube ! 0))) = replicate 6 True \<and>
   gather (occ packed) (take 18 (nni cube ! 0)) = replicate 18 True \<and>
   (\<exists>s'. move_atom cube bonds exp packed = Inr s' \<and>
      blocked_moves s' = blocked_moves packed \<and>
      not_moved_moves s' = not_moved_moves packed + 1 \<and> occ s' = occ packed)"
proof -
  have smp: "choice (masked (sti cube) (occ packed)) packed = Inr (0, packed\<lparr>drawn := 1\<rparr>)"
    by (simp add: choice_def masked_def cube_def packed_def)
  have ring: "gather (occ packed) (drop 18 (take 24 (nni cube ! 0))) = replicate 6 True"
    and inner: "gather (occ packed) (take 18 (nni cube ! 0)) = replicate 18 True"
    by (simp_all add: cube_def packed_def gather_def eval_nat_numeral)
  have ring': "\<forall>k \<in> set (drop 18 (take 24 (nni cube ! 0))). occ packed ! k"
    and inner': "\<forall>k \<in> set (take 18 (nni cube ! 0)). occ packed ! k"
    by (simp_all add: cube_def packed_def)
  have "\<exists>s'. move_atom cube bonds exp packed = Inr s'"
    by (rule move_atom_returns [OF wf_cube ok_states(3) exp_positive, of 0])
       (simp_all add: packed_def cube_def)
  then obtain s' where run: "move_atom cube bonds exp packed = Inr s'" by blast
  from move_atom_shells_full [OF wf_cube ok_states(3) smp ring' inner' run] run smp ring inner
    wf_cube ok_states(3)
  show ?thesis by blast
qed





text \<open>
  C7: the normalisation is not guarded. When the sampled site is not blocked and the four
  weights are all zero, \<open>move_atom\<close> fails at the division by their sum (the failure
  surfaces as the error of \<^verbatim>\<open>np.random.choice\<close> on probabilities that are not
  numbers), after it has vacated the sampled site. Such a state exists: on the cube at
  1 K, with a repulsion of 0.1 per occupied neighbour, every free candidate has a weight
  that underflows to zero, and the fourth candidate is occupied.
\<close>

theorem normalization_unguarded:
  assumes "choice (masked (sti surf) (occ s)) s = Inr (i, t)"
    and "\<not> is_surrounded surf s i" and "temperature s \<noteq> 0"
    and "\<forall>w \<in> set (hop_weights surf V expf (s\<lparr>occ := (occ s)[i := False]\<rparr>) (hop_candidates surf i)). w = 0"
  shows "\<exists>f. move_atom surf V expf s = Inl (NormalizationFailure, f) \<and> occ f = (occ s)[i := False] \<and>
           attempted_moves f = attempted_moves s + 1"
  using assms by (rule move_atom_zero_weights)

theorem normalization_unguarded_witness:
  "choice (masked (sti cube) (occ cold)) cold = Inr (0, cold\<lparr>drawn := 1\<rparr>) \<and>
   \<not> is_surrounded cube cold 0 \<and> temperature cold \<noteq> 0 \<and>
   hop_weights cube repel np_exp (cold\<lparr>occ := (occ cold)[0 := False]\<rparr>) (hop_candidates cube 0)
     = [0, 0, 0, 0] \<and>
   (\<exists>f. move_atom cube repel np_exp cold = Inl (NormalizationFailure, f) \<and>
      occ f = [False, True, False, False, False, False, True, False] \<and>
      attempted_moves f = attempted_moves cold + 1)"
proof -
  have smp: "choice (masked (sti cube) (occ cold)) cold = Inr (0, cold\<lparr>drawn := 1\<rparr>)"
    by (simp add: choice_def masked_def cube_def cold_def)
  have ns: "\<not> is_surrounded cube cold 0"
    by (simp add: is_surrounded_def gather_def cube_def cold_def)
  have tmp: "temperature cold \<noteq> 0" by (simp add: cold_def)
  have w: "hop_weights cube repel np_exp (cold\<lparr>occ := (occ cold)[0 := False]\<rparr>) (hop_candidates cube 0)
     = [0, 0, 0, 0]"
    by (simp add: hop_weights_def hop_candidates_def gather_def get_energy_def repel_def np_exp_def
        boltzmann_T_def cube_def cold_def Let_def)
  then have zero: "\<forall>w \<in> set (hop_weights cube repel np_exp (cold\<lparr>occ := (occ cold)[0 := False]\<rparr>)
      (hop_candidates cube 0)). w = 0" by simp
  have o: "(occ cold)[0 := False] = [False, True, False, False, False, False, True, False]"
    by (simp add: cold_def)
  from normalization_unguarded [OF smp ns tmp zero] smp ns tmp w o show ?thesis by auto
qed

text \<open>
  C10: a call of \<open>move_atom\<close> that returns has counted one more attempted move and one
  more in exactly one of the blocked, the successful and the not moved moves, so
  \<open>attempted_moves = successful_moves + not_moved_moves + blocked_moves\<close> goes from the
  state before the call to the state after it. Over a lap none of the four counters
  decreases, and the identity is kept.
\<close>

theorem move_counters:
  assumes "wf_surface surf" and "state_ok surf s"
  shows "(\<forall>s'. move_atom surf V expf s = Inr s' \<longrightarrow>
            attempted_moves s' = attempted_moves s + 1 \<and>
            (blocked_moves s' = blocked_moves s + 1 \<and> successful_moves s' = successful_moves s \<and>
               not_moved_moves s' = not_moved_moves s \<or>
             blocked_moves s' = blocked_moves s \<and> successful_moves s' = successful_moves s + 1 \<and>
               not_moved_moves s' = not_moved_moves s \<or>
             blocked_moves s' = blocked_moves s \<and> successful_moves s' = successful_moves s \<and>
               not_moved_moves s' = not_moved_moves s + 1) \<and>
            (attempted_moves s = successful_moves s + not_moved_moves s + blocked_moves s \<longrightarrow>
             attempted_moves s' = successful_moves s' + not_moved_moves s' + blocked_moves s')) \<and>
         (\<forall>s'. run_lap surf V expf n mps target s = Inr s' \<longrightarrow>
            attempted_moves s \<le> attempted_moves s' \<and> successful_moves s \<le> successful_moves s' \<and>
            not_moved_moves s \<le> not_moved_moves s' \<and> blocked_moves s \<le> blocked_moves s' \<and>
            (attempted_moves s = successful_moves s + not_moved_moves s + blocked_moves s \<longrightarrow>
             attempted_moves s' = successful_moves s' + not_moved_moves s' + blocked_moves s'))"
proof (intro conjI allI impI)
  fix s' assume run: "move_atom surf V expf s = Inr s'"
  note sm = move_atom_summary [OF assms run]
  from sm(3) show "attempted_moves s' = attempted_moves s + 1" .
  from move_atom_Inr [OF assms run] obtain i where
    r: "if is_surrounded surf s i then blocked_result s s'
        else \<exists>j \<in> set (hop_candidates surf i). \<not> (occ s)[i := False] ! j \<and> hop_result i j s s'"
    by blast
  show "blocked_moves s' = blocked_moves s + 1 \<and> successful_moves s' = successful_moves s \<and>
               not_moved_moves s' = not_moved_moves s \<or>
        blocked_moves s' = blocked_moves s \<and> successful_moves s' = successful_moves s + 1 \<and>
               not_moved_moves s' = not_moved_moves s \<or>
        blocked_moves s' = blocked_moves s \<and> successful_moves s' = successful_moves s \<and>
               not_moved_moves s' = not_moved_moves s + 1"
  proof (cases "is_surrounded surf s i")
    case True
    with r show ?thesis by (simp add: blocked_result_def)
  next
    case False
    with r obtain j where "hop_result i j s s'" by auto
    then show ?thesis by (cases "j = i") (simp_all add: hop_result_def)
  qed
  assume "attempted_moves s = successful_moves s + not_moved_moves s + blocked_moves s"
  with sm(3,4) show "attempted_moves s' = successful_moves s' + not_moved_moves s' + blocked_moves s'"
    by simp
next
  fix s' assume run: "run_lap surf V expf n mps target s = Inr s'"
  then have "run_steps surf V expf mps target n s = Inr s'" by (simp add: run_lap_def)
  note sm = run_steps_summary [OF assms(1,2) this]
  from sm show "attempted_moves s \<le> attempted_moves s'" "successful_moves s \<le> successful_moves s'"
    "not_moved_moves s \<le> not_moved_moves s'" "blocked_moves s \<le> blocked_moves s'" by simp_all
  assume "attempted_moves s = successful_moves s + not_moved_moves s + blocked_moves s"
  with sm show "attempted_moves s' = successful_moves s' + not_moved_moves s' + blocked_moves s'"
    by simp
qed

theorem move_counters_witness:
  "wf_surface cube \<and> state_ok cube two_atoms \<and>
   move_atom cube bonds exp two_atoms = Inr moved \<and>
   attempted_moves moved = attempted_moves two_atoms + 1 \<and>
   blocked_moves moved = blocked_moves two_atoms \<and>
   successful_moves moved = successful_moves two_atoms + 1 \<and>
   not_moved_moves moved = not_moved_moves two_atoms \<and>
   attempted_moves two_atoms =
     successful_moves two_atoms + not_moved_moves two_atoms + blocked_moves two_atoms \<and>
   attempted_moves moved = successful_moves moved + not_moved_moves moved + blocked_moves moved \<and>
   (\<exists>s'. run_lap cube bonds exp 2 3 (1 / 2) two_atoms = Inr s' \<and>
      attempted_moves two_atoms \<le> attempted_moves s' \<and>
      successful_moves two_atoms \<le> successful_moves s' \<and>
      not_moved_moves two_atoms \<le> not_moved_moves s' \<and>
      blocked_moves two_atoms \<le> blocked_moves s' \<and>
      attempted_moves s' = successful_moves s' + not_moved_moves s' + blocked_moves s')"
proof -
  note inst = move_counters [OF wf_cube ok_states(2), of bonds exp 2 3 "1 / 2"]
  have idn: "attempted_moves two_atoms =
     successful_moves two_atoms + not_moved_moves two_atoms + blocked_moves two_atoms"
    by (simp add: two_atoms_def)
  have vals: "attempted_moves moved = attempted_moves two_atoms + 1"
    "blocked_moves moved = blocked_moves two_atoms"
    "successful_moves moved = successful_moves two_atoms + 1"
    "not_moved_moves moved = not_moved_moves two_atoms"
    by (simp_all add: moved_def two_atoms_def)
  obtain s' where run: "run_lap cube bonds exp 2 3 (1 / 2) two_atoms = Inr s'"
    using cube_runs [of "1 / 2" 2 3] by auto
  from inst two_atoms_moved idn have
    "attempted_moves moved = successful_moves moved + not_moved_moves moved + blocked_moves moved"
    by blast
  moreover from inst run idn have "attempted_moves two_atoms \<le> attempted_moves s' \<and>
      successful_moves two_atoms \<le> successful_moves s' \<and>
      not_moved_moves two_atoms \<le> not_moved_moves s' \<and>
      blocked_moves two_atoms \<le> blocked_moves s' \<and>
      attempted_moves s' = successful_moves s' + not_moved_moves s' + blocked_moves s'"
    by blast
  ultimately show ?thesis using wf_cube ok_states(2) two_atoms_moved idn vals run by blast
qed

section \<open>The claim about the lap driver\<close>



section \<open>The claim about the energy bookkeeping\<close>

text \<open>
  C1 fails on the code in its third part (the first two, the total as the sum of the
  stored energies and the energy zero of a free site, are \<open>energy_consistent_kept\<close>
  above). \<open>move_atom\<close> recomputes the energies of the
  four candidates and of the two sites of the hop only, while \<open>add_atom\<close> recomputes the
  whole neighbour row of the site it occupies. On the cube, with a bond of \<open>-1\<close> for
  each occupied nearest neighbour, \<open>prepopulate\<close> puts atoms on the sites 0 and 3 and the
  first diffusion step takes the atom of site 0 to site 1, next to site 3. Site 3 is
  occupied and is no candidate of the hop: its stored energy stays 0 where the potential
  on its neighbours now gives \<open>-1\<close>, and the total is \<open>-1\<close> where the sum of the
  potential over the occupied sites is \<open>-2\<close>.
\<close>

theorem stale_energy_after_move:
  "prepopulate cube bonds [0, 3] (init_sim cube 300 (\<lambda>n. n)) = two_atoms \<and>
   move_atom cube bonds exp two_atoms = Inr moved \<and>
   occ moved ! 3 \<and> energies moved ! 3 = 0 \<and> get_energy cube bonds moved 3 = - 1 \<and>
   energy moved = - 1 \<and>
   sum_list (map (\<lambda>i. if occ moved ! i then get_energy cube bonds moved i else 0) [0, 1, 2, 3, 4, 5, 6, 7]) = - 2"
proof -
  have "occ moved ! 3" "energies moved ! 3 = 0" "energy moved = - 1"
    by (simp_all add: moved_def)
  moreover have "get_energy cube bonds moved 3 = - 1"
    by (simp add: get_energy_def gather_def bonds_def cube_def moved_def)
  moreover have "sum_list (map (\<lambda>i. if occ moved ! i then get_energy cube bonds moved i else 0)
      [0, 1, 2, 3, 4, 5, 6, 7]) = - 2"
    by (simp add: get_energy_def gather_def bonds_def cube_def moved_def)
  ultimately show ?thesis using two_atoms_reached bare_reached two_atoms_moved by simp
qed

end
